theory Spec2Isabelle
  imports Complex_Main "HOL-Library.Finite_Map"
begin

section \<open>Data model\<close>

text \<open>
  The graph model of \<^verbatim>\<open>types/index.ts\<close>. JavaScript numbers are modelled as
  real numbers (exact arithmetic: no rounding, no NaN, no infinities); an optional
  number is a \<open>real option\<close>. Of a node only the fields the layout engine and the
  canvas read are kept. A JavaScript object used as a dictionary of nodes is the list
  of its own properties, in enumeration order; an object used as a table inside a
  function is a map of its own properties.
\<close>

record Position =
  posX :: real
  posY :: real

record Node =
  node_id :: string
  position :: Position

datatype ConnectionType = related | blocking | dependency

record Connection =
  conn_id :: string
  conn_from :: string
  conn_to :: string
  conn_type :: ConnectionType

record MindMap =
  map_nodes :: "(string \<times> Node) list"
  map_connections :: "Connection list"

definition Object_values :: "(string \<times> 'a) list \<Rightarrow> 'a list" where
  "Object_values obj = map snd obj"

text \<open>
  A read \<^verbatim>\<open>obj[k]\<close> walks the prototype chain: when \<^verbatim>\<open>obj\<close> has no own property
  \<^verbatim>\<open>k\<close>, it yields the property of \<^verbatim>\<open>Object.prototype\<close> of that name, if there is
  one. These are the names of ECMAScript (with its Annex B); each of them holds a
  function or an object, which is truthy and is not a number. The end of an edge can
  be any string, so the reads by an edge's end follow this; the store names nodes by
  UUIDs, and a node identifier is never one of these names.

  An assignment \<^verbatim>\<open>obj[k] = v\<close> is the update of the map. (For the name
  \<^verbatim>\<open>__proto__\<close> JavaScript sets the prototype instead of an own property; a later
  read \<^verbatim>\<open>obj[k]\<close> yields \<^verbatim>\<open>v\<close> all the same when \<^verbatim>\<open>v\<close> is an object.)
\<close>

definition Object_prototype :: "string list" where
  "Object_prototype =
     [''constructor'', ''__defineGetter__'', ''__defineSetter__'', ''hasOwnProperty'',
      ''__lookupGetter__'', ''__lookupSetter__'', ''isPrototypeOf'', ''propertyIsEnumerable'',
      ''toString'', ''valueOf'', ''__proto__'', ''toLocaleString'']"

text \<open>Whether \<^verbatim>\<open>nodes[k]\<close> is truthy: a node of its own, or an inherited value.\<close>

definition hasProperty :: "(string \<times> Node) list \<Rightarrow> string \<Rightarrow> bool" where
  "hasProperty nodes k \<longleftrightarrow> map_of nodes k \<noteq> None \<or> k \<in> set Object_prototype"

section \<open>Canvas: viewport culling and coordinate transforms\<close>

text \<open>
  \<^verbatim>\<open>visibleNodes\<close> of \<^verbatim>\<open>components/Canvas.tsx\<close>. The screen size comes from
  the platform (\<^verbatim>\<open>Dimensions.get('window')\<close>) and is a parameter here.
\<close>

definition visibleNodes ::
  "MindMap option \<Rightarrow> Position \<Rightarrow> real \<Rightarrow> real \<Rightarrow> real \<Rightarrow> Node list" where
  "visibleNodes currentMap pan zoom SCREEN_WIDTH SCREEN_HEIGHT =
     (case currentMap of
        None \<Rightarrow> []
      | Some m \<Rightarrow>
          (let nodeSize = 120;
               buffer = 200;
               viewportLeft = - posX pan / zoom - buffer;
               viewportTop = - posY pan / zoom - buffer;
               viewportRight = (- posX pan + SCREEN_WIDTH) / zoom + buffer;
               viewportBottom = (- posY pan + SCREEN_HEIGHT) / zoom + buffer
           in filter (\<lambda>node.
                let nodeLeft = posX (position node);
                    nodeTop = posY (position node);
                    nodeRight = posX (position node) + nodeSize;
                    nodeBottom = posY (position node) + 80
                in \<not> (nodeRight < viewportLeft \<or>
                       nodeLeft > viewportRight \<or>
                       nodeBottom < viewportTop \<or>
                       nodeTop > viewportBottom))
              (Object_values (map_nodes m))))"

text \<open>
  \<^verbatim>\<open>visibleConnections\<close>: \<^verbatim>\<open>currentMap.nodes[connection.from]\<close> is a read by
  property name, tested for truthiness;
  \<^verbatim>\<open>visibleNodes.some(n => n.id === connection.from)\<close> is a search by the node's own
  identifier.
\<close>

definition visibleConnections :: "MindMap option \<Rightarrow> Node list \<Rightarrow> Connection list" where
  "visibleConnections currentMap visNodes =
     (case currentMap of
        None \<Rightarrow> []
      | Some m \<Rightarrow>
          filter (\<lambda>connection.
              let fromNode = hasProperty (map_nodes m) (conn_from connection);
                  toNode = hasProperty (map_nodes m) (conn_to connection)
              in fromNode \<and> toNode \<and>
                 list_ex (\<lambda>n. node_id n = conn_from connection) visNodes \<and>
                 list_ex (\<lambda>n. node_id n = conn_to connection) visNodes)
            (map_connections m))"

text \<open>
  The two coordinate transforms are written inline in the canvas: world to screen in
  \<^verbatim>\<open>renderConnections\<close> (\<^verbatim>\<open>sourceNode.position.x * zoom + pan.x\<close>), screen to
  world in \<^verbatim>\<open>onPanResponderMove\<close> (\<^verbatim>\<open>(gestureState.x0 - pan.x) / zoom\<close>).
\<close>

definition worldToScreen :: "Position \<Rightarrow> Position \<Rightarrow> real \<Rightarrow> Position" where
  "worldToScreen p pan zoom =
     \<lparr>posX = posX p * zoom + posX pan, posY = posY p * zoom + posY pan\<rparr>"

definition screenToWorld :: "Position \<Rightarrow> Position \<Rightarrow> real \<Rightarrow> Position" where
  "screenToWorld q pan zoom =
     \<lparr>posX = (posX q - posX pan) / zoom, posY = (posY q - posY pan) / zoom\<rparr>"

section \<open>Layout service\<close>

text \<open>
  \<^verbatim>\<open>LayoutService\<close> of \<^verbatim>\<open>services/layoutService.ts\<close> (in the source
  tree, the second half of \<^verbatim>\<open>MindFlowAPK/src/services/firebase.ts\<close>). A position mapping
  \<^verbatim>\<open>{ [key: string]: Position }\<close> is a map from identifiers to positions. An
  operation that can throw returns \<open>error + 'a\<close>, with \<open>Inl\<close> for the exception.
\<close>

datatype LayoutAlgorithm = force_directed | hierarchical | circular | grid

record LayoutOptions =
  algorithm :: LayoutAlgorithm
  spacing :: "real option"
  centerX :: "real option"
  centerY :: "real option"
  maxIterations :: "real option"
  attractionForce :: "real option"
  repulsionForce :: "real option"

datatype error = TypeError

type_synonym Positions = "string \<rightharpoonup> Position"

text \<open>
  \<^verbatim>\<open>options.field || d\<close>: an omitted option (\<^verbatim>\<open>undefined\<close>) and the number 0
  are both falsy, so both give the default.
\<close>

definition or_default :: "real option \<Rightarrow> real \<Rightarrow> real" where
  "or_default v d = (case v of None \<Rightarrow> d | Some a \<Rightarrow> if a = 0 then d else a)"

text \<open>\<^verbatim>\<open>xs.forEach(f)\<close> for a callback that may throw: the first exception ends the loop.\<close>

fun forEach :: "('a \<Rightarrow> 's \<Rightarrow> error + 's) \<Rightarrow> 'a list \<Rightarrow> 's \<Rightarrow> error + 's" where
  "forEach f [] s = Inr s"
| "forEach f (v # vs) s = (case f v s of Inl e \<Rightarrow> Inl e | Inr s' \<Rightarrow> forEach f vs s')"

text \<open>
  Reading a field of \<^verbatim>\<open>positions[k]\<close> throws when the key is absent. The key is a
  node identifier wherever the code does this. (For a node named by an inherited name
  the code reads \<^verbatim>\<open>undefined\<close> fields of the inherited value and computes with
  NaN, which the real numbers do not have; what is proved of force-directed layout
  below is about nodes with other names.)
\<close>

definition getPosition :: "Positions \<Rightarrow> string \<Rightarrow> error + Position" where
  "getPosition positions k = (case positions k of None \<Rightarrow> Inl TypeError | Some p \<Rightarrow> Inr p)"

subsection \<open>Force-directed layout\<close>

text \<open>
  Seeding: \<^verbatim>\<open>if (!positions[node.id])\<close> is a read, so a key that has no position
  yet and is no inherited name gets a point of the circle of radius 200.
\<close>

definition seedPosition :: "nat \<Rightarrow> nat \<times> Node \<Rightarrow> Positions \<Rightarrow> Positions" where
  "seedPosition n = (\<lambda>(index, node) positions.
     if positions (node_id node) = None \<and> node_id node \<notin> set Object_prototype
     then positions(node_id node \<mapsto>
            \<lparr>posX = cos ((real index / real n) * 2 * pi) * 200,
             posY = sin ((real index / real n) * 2 * pi) * 200\<rparr>)
     else positions)"

definition seedPositions :: "Node list \<Rightarrow> Positions" where
  "seedPositions nodes = fold (seedPosition (length nodes)) (enumerate 0 nodes) Map.empty"

text \<open>\<^verbatim>\<open>Math.sqrt(dx * dx + dy * dy) || 1\<close>\<close>

definition distanceOr1 :: "real \<Rightarrow> real \<Rightarrow> real" where
  "distanceOr1 dx dy = (let d = sqrt (dx * dx + dy * dy) in if d = 0 then 1 else d)"

text \<open>The repulsion of one other node, subtracted from the force on \<open>node\<close>.\<close>

definition repel :: "Positions \<Rightarrow> real \<Rightarrow> Node \<Rightarrow> Node \<Rightarrow> Position \<Rightarrow> error + Position" where
  "repel positions repulsion_force node otherNode force =
     (if node_id node = node_id otherNode then Inr force
      else case getPosition positions (node_id otherNode) of
             Inl e \<Rightarrow> Inl e
           | Inr po \<Rightarrow>
          (case getPosition positions (node_id node) of
             Inl e \<Rightarrow> Inl e
           | Inr pn \<Rightarrow>
               (let dx = posX po - posX pn;
                    dy = posY po - posY pn;
                    distance = distanceOr1 dx dy;
                    repulsion = repulsion_force / (distance * distance)
                in Inr \<lparr>posX = posX force - (dx / distance) * repulsion,
                        posY = posY force - (dy / distance) * repulsion\<rparr>)))"

text \<open>The attraction towards the other endpoint of a connection, when that node exists.\<close>

definition pull :: "Positions \<Rightarrow> real \<Rightarrow> Node \<Rightarrow> Node option \<Rightarrow> Position \<Rightarrow> error + Position" where
  "pull positions attraction_force node found force =
     (case found of
        None \<Rightarrow> Inr force
      | Some endNode \<Rightarrow>
          (case getPosition positions (node_id endNode) of
             Inl e \<Rightarrow> Inl e
           | Inr pe \<Rightarrow>
          (case getPosition positions (node_id node) of
             Inl e \<Rightarrow> Inl e
           | Inr pn \<Rightarrow>
               (let dx = posX pe - posX pn;
                    dy = posY pe - posY pn
                in Inr \<lparr>posX = posX force + dx * attraction_force,
                        posY = posY force + dy * attraction_force\<rparr>))))"

definition attract ::
  "Positions \<Rightarrow> real \<Rightarrow> Node list \<Rightarrow> Node \<Rightarrow> Connection \<Rightarrow> Position \<Rightarrow> error + Position" where
  "attract positions attraction_force nodes node connection force =
     (case (if conn_from connection = node_id node
            then pull positions attraction_force node
                   (find (\<lambda>n. node_id n = conn_to connection) nodes) force
            else Inr force) of
        Inl e \<Rightarrow> Inl e
      | Inr force' \<Rightarrow>
          (if conn_to connection = node_id node
           then pull positions attraction_force node
                  (find (\<lambda>n. node_id n = conn_from connection) nodes) force'
           else Inr force'))"

definition nodeForce ::
  "Positions \<Rightarrow> real \<Rightarrow> real \<Rightarrow> Node list \<Rightarrow> Connection list \<Rightarrow> Node \<Rightarrow> error + Position" where
  "nodeForce positions attraction_force repulsion_force nodes connections node =
     (case forEach (repel positions repulsion_force node) nodes \<lparr>posX = 0, posY = 0\<rparr> of
        Inl e \<Rightarrow> Inl e
      | Inr force \<Rightarrow> forEach (attract positions attraction_force nodes node) connections force)"

definition computeForces ::
  "Positions \<Rightarrow> real \<Rightarrow> real \<Rightarrow> Node list \<Rightarrow> Connection list \<Rightarrow> error + Positions" where
  "computeForces positions attraction_force repulsion_force nodes connections =
     forEach (\<lambda>node forces.
         case nodeForce positions attraction_force repulsion_force nodes connections node of
           Inl e \<Rightarrow> Inl e
         | Inr force \<Rightarrow> Inr (forces(node_id node \<mapsto> force)))
       nodes Map.empty"

definition movePosition :: "Positions \<Rightarrow> Node \<Rightarrow> Positions \<Rightarrow> error + Positions" where
  "movePosition forces node positions =
     (let damping = 0.9 in
      case getPosition positions (node_id node) of
        Inl e \<Rightarrow> Inl e
      | Inr p \<Rightarrow>
     (case getPosition forces (node_id node) of
        Inl e \<Rightarrow> Inl e
      | Inr force \<Rightarrow>
          Inr (positions(node_id node \<mapsto>
                 \<lparr>posX = posX p + posX force * damping,
                  posY = posY p + posY force * damping\<rparr>))))"

definition relaxStep ::
  "real \<Rightarrow> real \<Rightarrow> Node list \<Rightarrow> Connection list \<Rightarrow> Positions \<Rightarrow> error + Positions" where
  "relaxStep attraction_force repulsion_force nodes connections positions =
     (case computeForces positions attraction_force repulsion_force nodes connections of
        Inl e \<Rightarrow> Inl e
      | Inr forces \<Rightarrow> forEach (movePosition forces) nodes positions)"

text \<open>\<^verbatim>\<open>for (let iteration = 0; iteration < maxIterations; iteration++)\<close>\<close>

function relaxLoop ::
  "real \<Rightarrow> real \<Rightarrow> Node list \<Rightarrow> Connection list \<Rightarrow> real \<Rightarrow> nat \<Rightarrow> Positions \<Rightarrow> error + Positions"
  where
  "relaxLoop attraction_force repulsion_force nodes connections max_iterations iteration positions =
     (if real iteration < max_iterations
      then case relaxStep attraction_force repulsion_force nodes connections positions of
             Inl e \<Rightarrow> Inl e
           | Inr positions' \<Rightarrow>
               relaxLoop attraction_force repulsion_force nodes connections max_iterations
                 (iteration + 1) positions'
      else Inr positions)"
  by pat_completeness auto
termination
  by (relation "measure (\<lambda>(a, r, ns, cs, m, i, p). nat \<lceil>m\<rceil> - i)") (auto, linarith)

definition forceDirectedLayout ::
  "Node list \<Rightarrow> Connection list \<Rightarrow> LayoutOptions \<Rightarrow> error + Positions" where
  "forceDirectedLayout nodes connections options =
     (let max_iterations = or_default (maxIterations options) 100;
          attraction_force = or_default (attractionForce options) 0.01;
          repulsion_force = or_default (repulsionForce options) 1000
      in relaxLoop attraction_force repulsion_force nodes connections max_iterations 0
           (seedPositions nodes))"

subsection \<open>Circular and grid layout\<close>

definition circularLayout :: "Node list \<Rightarrow> LayoutOptions \<Rightarrow> Positions" where
  "circularLayout nodes options =
     (let radius = or_default (spacing options) 200;
          center_x = or_default (centerX options) 0;
          center_y = or_default (centerY options) 0
      in fold (\<lambda>(index, node) positions.
           let angle = (real index / real (length nodes)) * 2 * pi
           in positions(node_id node \<mapsto>
                \<lparr>posX = center_x + cos angle * radius,
                 posY = center_y + sin angle * radius\<rparr>))
         (enumerate 0 nodes) Map.empty)"

definition gridLayout :: "Node list \<Rightarrow> LayoutOptions \<Rightarrow> Positions" where
  "gridLayout nodes options =
     (let spacing' = or_default (spacing options) 150;
          center_x = or_default (centerX options) 0;
          center_y = or_default (centerY options) 0;
          cols = \<lceil>sqrt (real (length nodes))\<rceil>;
          rows = \<lceil>real (length nodes) / real_of_int cols\<rceil>;
          totalWidth = real_of_int (cols - 1) * spacing';
          totalHeight = real_of_int (rows - 1) * spacing';
          startX = center_x - totalWidth / 2;
          startY = center_y - totalHeight / 2
      in fold (\<lambda>(index, node) positions.
           let row = \<lfloor>real index / real_of_int cols\<rfloor>;
               col = int index mod cols
           in positions(node_id node \<mapsto>
                \<lparr>posX = startX + real_of_int col * spacing',
                 posY = startY + real_of_int row * spacing'\<rparr>))
         (enumerate 0 nodes) Map.empty)"

subsection \<open>Hierarchical layout\<close>

text \<open>
  \<^verbatim>\<open>graph\<close> maps a node identifier to the targets of its dependency edges;
  \<^verbatim>\<open>inDegree\<close> is a finite map to counters. Both get an entry for every node
  first. \<^verbatim>\<open>graph[conn.from].push(conn.to)\<close> throws when \<^verbatim>\<open>conn.from\<close> has no
  entry of its own: an inherited value has no method \<^verbatim>\<open>push\<close> either.

  A counter is a number, or the truthy value that is not a number which
  \<^verbatim>\<open>inDegree[k]\<close> reads for an inherited name (a function or an object, and the
  string that \<^verbatim>\<open>+ 1\<close> makes of it), or NaN.
\<close>

type_synonym Graph = "string \<rightharpoonup> string list"

datatype Counter = Count int | NotNumeric | NaN

type_synonym InDegree = "(string, Counter) fmap"

definition lookupCounter :: "InDegree \<Rightarrow> string \<Rightarrow> Counter option" where
  "lookupCounter inDegree k =
     (case fmlookup inDegree k of
        Some v \<Rightarrow> Some v
      | None \<Rightarrow> if k \<in> set Object_prototype then Some NotNumeric else None)"

definition initNode :: "Node \<Rightarrow> Graph \<times> InDegree \<Rightarrow> Graph \<times> InDegree" where
  "initNode node = (\<lambda>(graph, inDegree).
     (graph(node_id node \<mapsto> []), fmupd (node_id node) (Count 0) inDegree))"

text \<open>
  \<^verbatim>\<open>(v || 0) + 1\<close>: \<^verbatim>\<open>undefined\<close>, 0 and NaN are falsy and give 1; a value
  that is not a number stays one (the string grows by a character).
\<close>

definition orZeroPlusOne :: "Counter option \<Rightarrow> Counter" where
  "orZeroPlusOne v =
     (case v of
        None \<Rightarrow> Count 1
      | Some (Count d) \<Rightarrow> Count ((if d = 0 then 0 else d) + 1)
      | Some NotNumeric \<Rightarrow> NotNumeric
      | Some NaN \<Rightarrow> Count 1)"

definition addDependency :: "Connection \<Rightarrow> Graph \<times> InDegree \<Rightarrow> error + Graph \<times> InDegree" where
  "addDependency conn = (\<lambda>(graph, inDegree).
     if conn_type conn = dependency then
       (case graph (conn_from conn) of
          None \<Rightarrow> Inl TypeError
        | Some targets \<Rightarrow>
            Inr (graph(conn_from conn \<mapsto> targets @ [conn_to conn]),
                 fmupd (conn_to conn) (orZeroPlusOne (lookupCounter inDegree (conn_to conn)))
                   inDegree))
     else Inr (graph, inDegree))"

definition buildGraph :: "Node list \<Rightarrow> Connection list \<Rightarrow> error + Graph \<times> InDegree" where
  "buildGraph nodes connections =
     forEach addDependency connections (fold initNode nodes (Map.empty, fmempty))"

text \<open>
  \<^verbatim>\<open>inDegree[targetId]--\<close> stores the number less one, and NaN for anything that is
  not a number; the test \<^verbatim>\<open>inDegree[targetId] === 0\<close> reads what was stored. A
  level holds what \<^verbatim>\<open>nodes.find(...)!\<close> returned, so \<^verbatim>\<open>undefined\<close> when no
  node has the identifier.
\<close>

definition decrement :: "Counter option \<Rightarrow> Counter" where
  "decrement v = (case v of Some (Count d) \<Rightarrow> Count (d - 1) | _ \<Rightarrow> NaN)"

definition releaseTarget ::
  "Node list \<Rightarrow> string \<Rightarrow> InDegree \<times> Node option list \<Rightarrow> InDegree \<times> Node option list" where
  "releaseTarget nodes targetId = (\<lambda>(inDegree, nextLevel).
     let inDegree' = fmupd targetId (decrement (lookupCounter inDegree targetId)) inDegree
     in (inDegree',
         if lookupCounter inDegree' targetId = Some (Count 0)
         then nextLevel @ [find (\<lambda>n. node_id n = targetId) nodes]
         else nextLevel))"

text \<open>
  One element of \<^verbatim>\<open>currentLevel.forEach\<close>: \<^verbatim>\<open>graph[node.id].forEach(...)\<close> throws
  when the element is \<^verbatim>\<open>undefined\<close> or has no entry in the graph.
\<close>

definition releaseNode ::
  "Node list \<Rightarrow> Graph \<Rightarrow> Node option \<Rightarrow> InDegree \<times> Node option list
     \<Rightarrow> error + InDegree \<times> Node option list" where
  "releaseNode nodes graph entry state =
     (case entry of
        None \<Rightarrow> Inl TypeError
      | Some node \<Rightarrow>
          (case graph (node_id node) of
             None \<Rightarrow> Inl TypeError
           | Some targets \<Rightarrow> Inr (fold (releaseTarget nodes) targets state)))"

text \<open>The \<^verbatim>\<open>while (currentLevel.length > 0)\<close> loop.\<close>

function levelLoop ::
  "Node list \<Rightarrow> Graph \<Rightarrow> InDegree \<Rightarrow> Node option list \<Rightarrow> Node option list list
     \<Rightarrow> error + Node option list list" where
  "levelLoop nodes graph inDegree currentLevel levels =
     (if currentLevel \<noteq> [] then
        (case forEach (releaseNode nodes graph) currentLevel (inDegree, []) of
           Inl e \<Rightarrow> Inl e
         | Inr (inDegree', nextLevel) \<Rightarrow>
             levelLoop nodes graph inDegree' nextLevel (levels @ [currentLevel]))
      else Inr levels)"
  by pat_completeness auto

text \<open>Placing one level: \<^verbatim>\<open>positions[node.id] = ...\<close> throws on \<^verbatim>\<open>undefined\<close>.\<close>

definition placeNode ::
  "real \<Rightarrow> real \<Rightarrow> real \<Rightarrow> nat \<Rightarrow> nat \<times> Node option \<Rightarrow> Positions \<Rightarrow> error + Positions" where
  "placeNode spacing' startX center_y levelIndex = (\<lambda>(nodeIndex, entry) positions.
     case entry of
       None \<Rightarrow> Inl TypeError
     | Some node \<Rightarrow>
         Inr (positions(node_id node \<mapsto>
                \<lparr>posX = startX + real nodeIndex * spacing',
                 posY = center_y + real levelIndex * spacing'\<rparr>)))"

definition placeLevel ::
  "real \<Rightarrow> real \<Rightarrow> real \<Rightarrow> nat \<times> Node option list \<Rightarrow> Positions \<Rightarrow> error + Positions" where
  "placeLevel spacing' center_x center_y = (\<lambda>(levelIndex, levelNodes) positions.
     let levelWidth = real (length levelNodes) * spacing';
         startX = center_x - levelWidth / 2
     in forEach (placeNode spacing' startX center_y levelIndex) (enumerate 0 levelNodes)
          positions)"

definition hierarchicalLayout ::
  "Node list \<Rightarrow> Connection list \<Rightarrow> LayoutOptions \<Rightarrow> error + Positions" where
  "hierarchicalLayout nodes connections options =
     (let spacing' = or_default (spacing options) 200 in
      case buildGraph nodes connections of
        Inl e \<Rightarrow> Inl e
      | Inr (graph, inDegree) \<Rightarrow>
          (let currentLevel =
                 map Some
                   (filter (\<lambda>node. lookupCounter inDegree (node_id node) = Some (Count 0)) nodes)
           in case levelLoop nodes graph inDegree currentLevel [] of
                Inl e \<Rightarrow> Inl e
              | Inr levels \<Rightarrow>
                  (let center_x = or_default (centerX options) 0;
                       center_y = or_default (centerY options) 0
                   in forEach (placeLevel spacing' center_x center_y) (enumerate 0 levels)
                        Map.empty)))"

subsection \<open>Dispatch\<close>

definition applyLayout ::
  "(string \<times> Node) list \<Rightarrow> Connection list \<Rightarrow> LayoutOptions \<Rightarrow> error + Positions" where
  "applyLayout nodes connections options =
     (let nodeList = Object_values nodes in
      if length nodeList = 0 then Inr Map.empty
      else case algorithm options of
             force_directed \<Rightarrow> forceDirectedLayout nodeList connections options
           | hierarchical \<Rightarrow> hierarchicalLayout nodeList connections options
           | circular \<Rightarrow> Inr (circularLayout nodeList options)
           | grid \<Rightarrow> Inr (gridLayout nodeList options))"

subsection \<open>Center on node\<close>

text \<open>
  The breadth-first traversal of \<^verbatim>\<open>centerOnNode\<close>. The \<^verbatim>\<open>Set\<close> of visited
  identifiers is the list of its elements in insertion order, its size the length.
  \<^verbatim>\<open>nextNodeId && nodes[nextNodeId]\<close> is false for \<^verbatim>\<open>null\<close>, for the empty
  string and for a name that \<^verbatim>\<open>nodes\<close> neither has nor inherits.
\<close>

record QueueItem =
  item_nodeId :: string
  item_level :: nat
  item_angle :: real

type_synonym Traversal = "QueueItem list \<times> string list \<times> Positions"

definition Set_add :: "'a \<Rightarrow> 'a list \<Rightarrow> 'a list" where
  "Set_add v s = (if v \<in> set s then s else s @ [v])"

definition discover ::
  "(string \<times> Node) list \<Rightarrow> string \<Rightarrow> nat \<Rightarrow> real \<Rightarrow> nat \<Rightarrow> Connection \<Rightarrow> Traversal \<Rightarrow> Traversal"
  where
  "discover nodes nodeId levelSize radius level conn = (\<lambda>(queue, visited, positions).
     let nextNodeId =
           (if conn_from conn = nodeId \<and> conn_to conn \<notin> set visited then Some (conn_to conn)
            else if conn_to conn = nodeId \<and> conn_from conn \<notin> set visited
                 then Some (conn_from conn)
            else None)
     in case nextNodeId of
          None \<Rightarrow> (queue, visited, positions)
        | Some k \<Rightarrow>
            if k \<noteq> [] \<and> hasProperty nodes k then
              (let angle = (real (length visited) / real (max 6 (levelSize * 2))) * 2 * pi
               in (queue @ [\<lparr>item_nodeId = k, item_level = level + 1, item_angle = angle\<rparr>],
                   Set_add k visited,
                   positions(k \<mapsto> \<lparr>posX = cos angle * radius, posY = sin angle * radius\<rparr>)))
            else (queue, visited, positions))"

text \<open>
  The \<^verbatim>\<open>for (let i = 0; i < levelSize; i++)\<close> loop, by the number of rounds left.
  Destructuring \<^verbatim>\<open>queue.shift()!\<close> throws when the queue is empty.
\<close>

fun visitLevel ::
  "(string \<times> Node) list \<Rightarrow> Connection list \<Rightarrow> nat \<Rightarrow> real \<Rightarrow> nat \<Rightarrow> nat \<Rightarrow> Traversal
     \<Rightarrow> error + Traversal" where
  "visitLevel nodes connections levelSize radius level 0 state = Inr state"
| "visitLevel nodes connections levelSize radius level (Suc rounds) (queue, visited, positions) =
     (case queue of
        [] \<Rightarrow> Inl TypeError
      | item # rest \<Rightarrow>
          visitLevel nodes connections levelSize radius level rounds
            (fold (discover nodes (item_nodeId item) levelSize radius level) connections
               (rest, visited, positions)))"

text \<open>The \<^verbatim>\<open>while (queue.length > 0)\<close> loop.\<close>

function bfsLoop ::
  "(string \<times> Node) list \<Rightarrow> Connection list \<Rightarrow> nat \<Rightarrow> Traversal \<Rightarrow> error + Positions" where
  "bfsLoop nodes connections level (queue, visited, positions) =
     (if queue \<noteq> [] then
        (let levelSize = length queue;
             radius = (real level + 1) * 150
         in case visitLevel nodes connections levelSize radius level levelSize
                   (queue, visited, positions) of
              Inl e \<Rightarrow> Inl e
            | Inr state' \<Rightarrow> bfsLoop nodes connections (level + 1) state')
      else Inr positions)"
  by pat_completeness auto

definition centerOnNode ::
  "(string \<times> Node) list \<Rightarrow> string \<Rightarrow> Connection list \<Rightarrow> error + Positions" where
  "centerOnNode nodes centerNodeId connections =
     (if \<not> hasProperty nodes centerNodeId then Inr Map.empty
      else bfsLoop nodes connections 0
             ([\<lparr>item_nodeId = centerNodeId, item_level = 0, item_angle = 0\<rparr>],
              Set_add centerNodeId [],
              [centerNodeId \<mapsto> \<lparr>posX = 0, posY = 0\<rparr>]))"

section \<open>Example inputs\<close>

text \<open>Small inputs used to instantiate the theorems below.\<close>

definition exMap :: MindMap where
  "exMap = \<lparr>map_nodes = [(''a'', \<lparr>node_id = ''a'', position = \<lparr>posX = -320, posY = 0\<rparr>\<rparr>),
                     (''b'', \<lparr>node_id = ''b'', position = \<lparr>posX = 700, posY = 0\<rparr>\<rparr>)],
            map_connections = [\<lparr>conn_id = ''c'', conn_from = ''a'', conn_to = ''b'', conn_type = related\<rparr>]\<rparr>"

definition noOptions :: "LayoutAlgorithm \<Rightarrow> LayoutOptions" where
  "noOptions a = \<lparr>algorithm = a, spacing = None, centerX = None, centerY = None,
     maxIterations = None, attractionForce = None, repulsionForce = None\<rparr>"

definition nodeAt :: "string \<Rightarrow> real \<Rightarrow> real \<Rightarrow> Node" where
  "nodeAt k px py = \<lparr>node_id = k, position = \<lparr>posX = px, posY = py\<rparr>\<rparr>"

definition edge :: "string \<Rightarrow> string \<Rightarrow> ConnectionType \<Rightarrow> Connection" where
  "edge a b t = \<lparr>conn_id = a @ b, conn_from = a, conn_to = b, conn_type = t\<rparr>"

section \<open>Notions used in the proofs\<close>

text \<open>
  The definitions of this section are not part of the program: they name the
  quantities and invariants that the theorems and proofs below speak about.
\<close>

text \<open>The identifiers whose in-degree counter is a positive number.\<close>

definition positives :: "InDegree \<Rightarrow> string set" where
  "positives inDegree = {k. \<exists>d. fmlookup inDegree k = Some (Count d) \<and> 0 < d}"

text \<open>
  The names that \<^verbatim>\<open>nodes\<close> has or inherits, and those of them that the traversal
  has not visited yet.
\<close>

definition properties :: "(string \<times> Node) list \<Rightarrow> string set" where
  "properties nodes = fst ` set nodes \<union> set Object_prototype"

definition unvisited :: "(string \<times> Node) list \<Rightarrow> string list \<Rightarrow> string set" where
  "unvisited nodes visited = properties nodes - set visited"

text \<open>\<^verbatim>\<open>xs.forEach((v, index) => { m[key(v)] = g(index, v) })\<close>, counting from \<open>j\<close>.\<close>

definition putAll :: "('a \<Rightarrow> 'k) \<Rightarrow> (nat \<Rightarrow> 'a \<Rightarrow> 'v) \<Rightarrow> nat \<Rightarrow> 'a list \<Rightarrow> ('k \<rightharpoonup> 'v) \<Rightarrow> ('k \<rightharpoonup> 'v)"
  where "putAll key g j xs m0 = fold (\<lambda>(i, n) m. m(key n \<mapsto> g i n)) (enumerate j xs) m0"

text \<open>\<open>n\<close> relaxation steps, one after the other.\<close>

fun relaxTimes ::
  "real \<Rightarrow> real \<Rightarrow> Node list \<Rightarrow> Connection list \<Rightarrow> nat \<Rightarrow> Positions \<Rightarrow> error + Positions" where
  "relaxTimes a r nodes cs 0 positions = Inr positions"
| "relaxTimes a r nodes cs (Suc n) positions =
     (case relaxStep a r nodes cs positions of
        Inl e \<Rightarrow> Inl e
      | Inr positions' \<Rightarrow> relaxTimes a r nodes cs n positions')"

text \<open>
  The state of the traversal while the focus node is being expanded: the focus node is
  at the origin, every other visited identifier on the circle of radius 150.
\<close>

definition firstRing :: "string \<Rightarrow> Traversal \<Rightarrow> bool" where
  "firstRing focus = (\<lambda>(q, v, p).
     focus \<in> set v \<and> p focus = Some \<lparr>posX = 0, posY = 0\<rparr> \<and>
     (\<forall>k \<in> set v. k \<noteq> focus \<longrightarrow>
        (\<exists>a. p k = Some \<lparr>posX = cos a * 150, posY = sin a * 150\<rparr>)))"

text \<open>The queue and the visited set hold names that \<^verbatim>\<open>nodes\<close> has or inherits.\<close>

definition inKeys :: "(string \<times> Node) list \<Rightarrow> Traversal \<Rightarrow> bool" where
  "inKeys nodes = (\<lambda>(q, v, p).
     item_nodeId ` set q \<subseteq> properties nodes \<and> set v \<subseteq> properties nodes)"

text \<open>
  One step of the traversal: from \<open>a\<close> to the other end \<open>b\<close> of an edge of any type,
  when \<open>b\<close> is not the empty string and \<^verbatim>\<open>nodes[b]\<close> is truthy. \<open>links\<close> are the
  steps between nodes that \<^verbatim>\<open>nodes\<close> has itself.
\<close>

definition steps :: "(string \<times> Node) list \<Rightarrow> Connection list \<Rightarrow> (string \<times> string) set" where
  "steps nodes cs =
     {(a, b). (\<exists>c \<in> set cs. (conn_from c = a \<and> conn_to c = b) \<or> (conn_to c = a \<and> conn_from c = b))
              \<and> b \<noteq> [] \<and> hasProperty nodes b}"

definition links :: "(string \<times> Node) list \<Rightarrow> Connection list \<Rightarrow> (string \<times> string) set" where
  "links nodes cs =
     {(a, b). (\<exists>c \<in> set cs. (conn_from c = a \<and> conn_to c = b) \<or> (conn_to c = a \<and> conn_from c = b))
              \<and> b \<noteq> [] \<and> b \<in> fst ` set nodes}"

text \<open>
  The invariant of the traversal, between two elements of the queue: positions are
  those of the visited names, which can all be reached from the focus node, and a
  visited name that is no longer in the queue has all its steps visited.
\<close>

definition traversalInv ::
  "(string \<times> Node) list \<Rightarrow> Connection list \<Rightarrow> string \<Rightarrow> Traversal \<Rightarrow> bool" where
  "traversalInv nodes cs focus = (\<lambda>(q, v, p).
     item_nodeId ` set q \<subseteq> set v \<and> dom p = set v \<and> focus \<in> set v \<and>
     set v \<subseteq> (steps nodes cs)\<^sup>* `` {focus} \<and>
     (\<forall>k \<in> set v. k \<notin> item_nodeId ` set q \<longrightarrow> steps nodes cs `` {k} \<subseteq> set v))"

text \<open>The same while the name \<open>k0\<close> is being expanded.\<close>

definition expandingInv ::
  "(string \<times> Node) list \<Rightarrow> Connection list \<Rightarrow> string \<Rightarrow> string \<Rightarrow> Traversal \<Rightarrow> bool" where
  "expandingInv nodes cs focus k0 = (\<lambda>(q, v, p).
     item_nodeId ` set q \<subseteq> set v \<and> dom p = set v \<and> focus \<in> set v \<and> k0 \<in> set v \<and>
     set v \<subseteq> (steps nodes cs)\<^sup>* `` {focus} \<and>
     (\<forall>k \<in> set v. k \<notin> item_nodeId ` set q \<longrightarrow> k \<noteq> k0 \<longrightarrow> steps nodes cs `` {k} \<subseteq> set v))"

text \<open>\<^verbatim>\<open>nodes.find(n => n.id === k)\<close>\<close>

definition lookupNode :: "Node list \<Rightarrow> string \<Rightarrow> Node option" where
  "lookupNode nodes k = find (\<lambda>n. node_id n = k) nodes"

text \<open>
  The dependency edges: as a relation, the targets of the edges leaving \<open>k\<close>, the
  number of edges into \<open>t\<close> whose source is not in \<open>P\<close>, and the identifiers whose
  in-degree counter is a number (those of the nodes, and the targets that are no
  inherited names).
\<close>

definition isDep :: "Connection \<Rightarrow> bool" where
  "isDep c \<longleftrightarrow> conn_type c = dependency"

definition dependencies :: "Connection list \<Rightarrow> (string \<times> string) set" where
  "dependencies cs = {(conn_from c, conn_to c) |c. c \<in> set cs \<and> conn_type c = dependency}"

definition targetsOf :: "Connection list \<Rightarrow> string \<Rightarrow> string list" where
  "targetsOf cs k = map conn_to (filter (\<lambda>c. isDep c \<and> conn_from c = k) cs)"

definition remaining :: "Connection list \<Rightarrow> string set \<Rightarrow> string \<Rightarrow> nat" where
  "remaining cs P t = length (filter (\<lambda>c. isDep c \<and> conn_to c = t \<and> conn_from c \<notin> P) cs)"

definition counted :: "Node list \<Rightarrow> Connection list \<Rightarrow> string set" where
  "counted nodes cs =
     node_id ` set nodes \<union> (conn_to ` {c \<in> set cs. isDep c} - set Object_prototype)"

text \<open>\<^verbatim>\<open>inDegree[targetId]--\<close> with the released identifier instead of the node.\<close>

definition releaseId :: "string \<Rightarrow> InDegree \<times> string list \<Rightarrow> InDegree \<times> string list" where
  "releaseId t = (\<lambda>(d, ids).
     let d' = fmupd t (decrement (lookupCounter d t)) d
     in (d', if lookupCounter d' t = Some (Count 0) then ids @ [t] else ids))"

text \<open>
  Levels of identifiers are \<open>ordered\<close> when the source of every dependency edge into a
  level lies in an earlier level. \<open>levelInv\<close> is the invariant of the level loop, for
  the current level \<open>C\<close> and the finished levels \<open>Ls\<close>: the counter of an identifier
  is the number of dependency edges into it whose source is in no finished level, and
  the nodes in a level are those for which this number is 0. \<open>layered\<close> is what the
  invariant gives for the returned levels.
\<close>

definition ordered :: "Connection list \<Rightarrow> string list list \<Rightarrow> bool" where
  "ordered cs Ls \<longleftrightarrow>
     (\<forall>c \<in> set cs. isDep c \<longrightarrow>
        (\<forall>j < length Ls. conn_to c \<in> set (Ls ! j) \<longrightarrow> (\<exists>i < j. conn_from c \<in> set (Ls ! i))))"

definition levelInv ::
  "Node list \<Rightarrow> Connection list \<Rightarrow> InDegree \<Rightarrow> string list \<Rightarrow> string list list \<Rightarrow> bool" where
  "levelInv nodes cs d C Ls \<longleftrightarrow>
     distinct (concat Ls @ C) \<and>
     set (concat Ls) \<subseteq> node_id ` set nodes \<and>
     (\<forall>t \<in> counted nodes cs. fmlookup d t = Some (Count (int (remaining cs (set (concat Ls)) t)))) \<and>
     (\<forall>t. t \<notin> counted nodes cs \<longrightarrow> (\<forall>v. fmlookup d t \<noteq> Some (Count v))) \<and>
     (\<forall>n \<in> set C \<union> set (concat Ls). remaining cs (set (concat Ls)) n = 0) \<and>
     (\<forall>n \<in> node_id ` set nodes. remaining cs (set (concat Ls)) n = 0
        \<longrightarrow> n \<in> set C \<union> set (concat Ls)) \<and>
     ordered cs (Ls @ [C])"

definition layered :: "Node list \<Rightarrow> Connection list \<Rightarrow> Node option list list \<Rightarrow> bool" where
  "layered nodes cs levels \<longleftrightarrow>
     (\<exists>Ls. levels = map (map (lookupNode nodes)) Ls \<and>
           set (concat Ls) \<subseteq> node_id ` set nodes \<and> distinct (concat Ls) \<and> ordered cs Ls \<and>
           (\<forall>n \<in> node_id ` set nodes.
              n \<in> set (concat Ls) \<longleftrightarrow> remaining cs (set (concat Ls)) n = 0))"

text \<open>
  Positions of two nodes A and B on the abscissa, A to the right of B and at \<open>x0\<close> or
  beyond.
\<close>

definition apart :: "real \<Rightarrow> Positions \<Rightarrow> bool" where
  "apart x0 positions \<longleftrightarrow>
     (\<exists>xa xb. positions ''A'' = Some \<lparr>posX = xa, posY = 0\<rparr> \<and>
              positions ''B'' = Some \<lparr>posX = xb, posY = 0\<rparr> \<and> xb < xa \<and> x0 \<le> xa)"

section \<open>Termination of the loops\<close>

text \<open>
  The level loop of the hierarchical layout ends because an identifier is released
  only when its counter steps from 1 to 0, and counters never grow: the number of
  identifiers with a positive counter bounds the number of releases still to come.
\<close>

lemma finite_positives: "finite (positives inDegree)"
proof -
  have "positives inDegree \<subseteq> fmdom' inDegree"
    by (auto simp: positives_def fmdom'I)
  then show ?thesis by (rule finite_subset) simp
qed

lemma lookupCounter_Count:
  "lookupCounter d t = Some (Count v) \<longleftrightarrow> fmlookup d t = Some (Count v)"
  by (auto simp: lookupCounter_def split: option.splits)

lemma lookupCounter_fmupd: "lookupCounter (fmupd t v d) t = Some v"
  by (simp add: lookupCounter_def)

lemma decrement_zero: "decrement v = Count 0 \<longleftrightarrow> v = Some (Count 1)"
  by (auto simp: decrement_def split: option.splits Counter.splits)

lemma decrement_positive: "decrement v = Count w \<Longrightarrow> 0 < w \<Longrightarrow> \<exists>u. v = Some (Count u) \<and> 0 < u"
  by (auto simp: decrement_def split: option.splits Counter.splits)

lemma releaseTarget_apply:
  "releaseTarget nodes t (d, nx) =
     (fmupd t (decrement (lookupCounter d t)) d,
      if lookupCounter d t = Some (Count 1) then nx @ [find (\<lambda>n. node_id n = t) nodes] else nx)"
  by (simp add: releaseTarget_def Let_def lookupCounter_fmupd decrement_zero)

lemma releaseTarget_measure:
  assumes "releaseTarget nodes t (d, nx) = (d', nx')"
  shows "card (positives d') + length nx' \<le> card (positives d) + length nx"
proof -
  from assms have d': "d' = fmupd t (decrement (lookupCounter d t)) d"
    and nx': "nx' = (if lookupCounter d t = Some (Count 1)
                    then nx @ [find (\<lambda>n. node_id n = t) nodes] else nx)"
    by (simp_all add: releaseTarget_apply)
  show ?thesis
  proof (cases "lookupCounter d t = Some (Count 1)")
    case True
    then have one: "fmlookup d t = Some (Count 1)" by (simp add: lookupCounter_Count)
    then have "t \<in> positives d" by (simp add: positives_def)
    moreover have "positives d' = positives d - {t}"
      using True by (auto simp: positives_def d' decrement_def)
    ultimately have "card (positives d') = card (positives d) - 1" "0 < card (positives d)"
      using finite_positives [of d] by (auto simp: card_gt_0_iff)
    then show ?thesis using True nx' by simp
  next
    case False
    have "positives d' \<subseteq> positives d"
    proof
      fix k assume "k \<in> positives d'"
      then obtain w where w: "fmlookup d' k = Some (Count w)" "0 < w"
        by (auto simp: positives_def)
      show "k \<in> positives d"
      proof (cases "k = t")
        case True
        with w d' have "decrement (lookupCounter d t) = Count w" by simp
        from decrement_positive [OF this w(2)] True show ?thesis
          by (auto simp: positives_def lookupCounter_Count)
      next
        case False
        with w d' show ?thesis by (auto simp: positives_def)
      qed
    qed
    then have "card (positives d') \<le> card (positives d)"
      by (rule card_mono [OF finite_positives])
    then show ?thesis using False nx' by simp
  qed
qed

lemma fold_releaseTarget_measure:
  "fold (releaseTarget nodes) ts (d, nx) = (d', nx') \<Longrightarrow>
   card (positives d') + length nx' \<le> card (positives d) + length nx"
proof (induction ts arbitrary: d nx)
  case Nil
  then show ?case by simp
next
  case (Cons t ts)
  obtain d1 nx1 where s: "releaseTarget nodes t (d, nx) = (d1, nx1)"
    by (cases "releaseTarget nodes t (d, nx)")
  from Cons.prems s have "fold (releaseTarget nodes) ts (d1, nx1) = (d', nx')" by simp
  from Cons.IH [OF this] releaseTarget_measure [OF s] show ?case by linarith
qed

lemma forEach_releaseNode_measure:
  "forEach (releaseNode nodes graph) level (d, nx) = Inr (d', nx') \<Longrightarrow>
   card (positives d') + length nx' \<le> card (positives d) + length nx"
proof (induction level arbitrary: d nx)
  case Nil
  then show ?case by simp
next
  case (Cons entry level)
  from Cons.prems obtain d1 nx1 where
    s: "releaseNode nodes graph entry (d, nx) = Inr (d1, nx1)"
    and r: "forEach (releaseNode nodes graph) level (d1, nx1) = Inr (d', nx')"
    by (auto split: sum.splits)
  from s obtain node ts where "fold (releaseTarget nodes) ts (d, nx) = (d1, nx1)"
    by (auto simp: releaseNode_def split: option.splits)
  from fold_releaseTarget_measure [OF this] Cons.IH [OF r] show ?case by linarith
qed

termination levelLoop
proof (relation "measure (\<lambda>(nodes, graph, inDegree, currentLevel, levels).
          2 * card (positives inDegree) + (if currentLevel = [] then 0 else 1))")
  show "wf (measure (\<lambda>(nodes, graph, inDegree, currentLevel, levels).
          2 * card (positives inDegree) + (if currentLevel = [] then 0 else 1)))"
    by simp
next
  fix nodes :: "Node list" and graph :: Graph and inDegree :: InDegree
    and currentLevel levels x2 x y
  assume "currentLevel \<noteq> []"
    and "forEach (releaseNode nodes graph) currentLevel (inDegree, []) = Inr x2"
    and "(x, y) = x2"
  then have "card (positives x) + length y \<le> card (positives inDegree)"
    using forEach_releaseNode_measure [of nodes graph currentLevel inDegree "[]" x y] by simp
  then show "((nodes, graph, x, y, levels @ [currentLevel]),
              (nodes, graph, inDegree, currentLevel, levels))
          \<in> measure (\<lambda>(nodes, graph, inDegree, currentLevel, levels).
               2 * card (positives inDegree) + (if currentLevel = [] then 0 else 1))"
    using \<open>currentLevel \<noteq> []\<close> by (cases y) auto
qed

text \<open>
  The traversal of center-on-node ends because every identifier put on the queue is a
  property of \<^verbatim>\<open>nodes\<close> that was not visited before.
\<close>

lemma hasProperty_properties: "hasProperty nodes k \<longleftrightarrow> k \<in> properties nodes"
  by (auto simp: hasProperty_def properties_def map_of_eq_None_iff)

lemma discover_cases:
  assumes "discover nodes nodeId levelSize radius level conn (q, v, p) = (q', v', p')"
  obtains (skip) "q' = q" "v' = v" "p' = p"
  | (add) k a where "k \<notin> set v" "k \<noteq> []" "hasProperty nodes k"
      "(conn_from conn = nodeId \<and> k = conn_to conn) \<or> (conn_to conn = nodeId \<and> k = conn_from conn)"
      "q' = q @ [\<lparr>item_nodeId = k, item_level = level + 1, item_angle = a\<rparr>]"
      "v' = v @ [k]"
      "p' = p(k \<mapsto> \<lparr>posX = cos a * radius, posY = sin a * radius\<rparr>)"
proof -
  let ?next = "if conn_from conn = nodeId \<and> conn_to conn \<notin> set v then Some (conn_to conn)
      else if conn_to conn = nodeId \<and> conn_from conn \<notin> set v then Some (conn_from conn)
      else None"
  show thesis
  proof (cases ?next)
    case None
    with assms have "q' = q \<and> v' = v \<and> p' = p"
      unfolding discover_def Let_def by simp
    then show thesis using skip by blast
  next
    case (Some k)
    then have kv: "k \<notin> set v"
      and kc: "(conn_from conn = nodeId \<and> k = conn_to conn) \<or>
               (conn_to conn = nodeId \<and> k = conn_from conn)"
      by (auto split: if_splits)
    show thesis
    proof (cases "k \<noteq> [] \<and> hasProperty nodes k")
      case True
      let ?a = "(real (length v) / real (max 6 (levelSize * 2))) * 2 * pi"
      from assms Some True kv have
        "q' = q @ [\<lparr>item_nodeId = k, item_level = level + 1, item_angle = ?a\<rparr>] \<and>
         v' = v @ [k] \<and>
         p' = p(k \<mapsto> \<lparr>posX = cos ?a * radius, posY = sin ?a * radius\<rparr>)"
        unfolding discover_def Let_def Set_add_def by simp
      then show thesis using add [of k ?a] kv kc True by blast
    next
      case False
      with assms Some have "q' = q \<and> v' = v \<and> p' = p"
        unfolding discover_def Let_def by auto
      then show thesis using skip by blast
    qed
  qed
qed

lemma discover_measure:
  assumes "discover nodes nodeId levelSize radius level conn (q, v, p) = (q', v', p')"
  shows "length q' + card (unvisited nodes v') = length q + card (unvisited nodes v)"
  using assms
proof (cases rule: discover_cases)
  case skip
  then show ?thesis by simp
next
  case (add k a)
  from add(3) have "k \<in> properties nodes"
    by (simp add: hasProperty_properties)
  with add(1) have "k \<in> unvisited nodes v" by (simp add: unvisited_def)
  moreover have "unvisited nodes (v @ [k]) = unvisited nodes v - {k}"
    by (auto simp: unvisited_def)
  moreover have "finite (unvisited nodes v)" by (simp add: unvisited_def properties_def)
  ultimately have "card (unvisited nodes (v @ [k])) = card (unvisited nodes v) - 1"
    "0 < card (unvisited nodes v)"
    by (auto simp: card_gt_0_iff)
  then show ?thesis using add by simp
qed

lemma fold_discover_measure:
  "fold (discover nodes nodeId levelSize radius level) conns (q, v, p) = (q', v', p') \<Longrightarrow>
   length q' + card (unvisited nodes v') = length q + card (unvisited nodes v)"
proof (induction conns arbitrary: q v p)
  case Nil
  then show ?case by simp
next
  case (Cons c conns)
  obtain q1 v1 p1 where
    s: "discover nodes nodeId levelSize radius level c (q, v, p) = (q1, v1, p1)"
    by (cases "discover nodes nodeId levelSize radius level c (q, v, p)") auto
  with Cons.prems have
    "fold (discover nodes nodeId levelSize radius level) conns (q1, v1, p1) = (q', v', p')"
    by simp
  from Cons.IH [OF this] discover_measure [OF s] show ?case by simp
qed

lemma visitLevel_measure:
  "visitLevel nodes conns levelSize radius level rounds (q, v, p) = Inr (q', v', p') \<Longrightarrow>
   length q' + card (unvisited nodes v') + rounds = length q + card (unvisited nodes v)"
proof (induction rounds arbitrary: q v p)
  case 0
  then show ?case by simp
next
  case (Suc rounds)
  from Suc.prems obtain item rest where q: "q = item # rest"
    by (cases q) auto
  obtain q1 v1 p1 where
    f: "fold (discover nodes (item_nodeId item) levelSize radius level) conns (rest, v, p)
        = (q1, v1, p1)"
    by (cases "fold (discover nodes (item_nodeId item) levelSize radius level) conns (rest, v, p)")
      auto
  with Suc.prems q have
    "visitLevel nodes conns levelSize radius level rounds (q1, v1, p1) = Inr (q', v', p')"
    by simp
  from Suc.IH [OF this] fold_discover_measure [OF f] q show ?case by simp
qed

termination bfsLoop
proof (relation "measure (\<lambda>(nodes, conns, level, queue, visited, positions).
          2 * card (unvisited nodes visited) + (if queue = [] then 0 else 1))")
  show "wf (measure (\<lambda>(nodes, conns, level, queue, visited, positions).
          2 * card (unvisited nodes visited) + (if queue = [] then 0 else 1)))"
    by simp
next
  fix nodes :: "(string \<times> Node) list" and connections :: "Connection list" and level :: nat
    and queue :: "QueueItem list" and visited :: "string list" and positions :: Positions
    and x xa :: "nat" and xb :: real and x2 :: Traversal
  fix ya
  assume ne: "queue \<noteq> []" and "x = length queue"
    and "visitLevel nodes connections x ya level x (queue, visited, positions) = Inr x2"
  then have v: "visitLevel nodes connections (length queue) ya level (length queue)
      (queue, visited, positions) = Inr x2" by simp
  obtain q' v' p' where x2: "x2 = (q', v', p')" by (cases x2) auto
  from visitLevel_measure [OF v [unfolded x2]]
  have "length q' + card (unvisited nodes v') = card (unvisited nodes visited)" by simp
  then show "((nodes, connections, level + 1, x2),
              (nodes, connections, level, queue, visited, positions))
          \<in> measure (\<lambda>(nodes, conns, level, queue, visited, positions).
               2 * card (unvisited nodes visited) + (if queue = [] then 0 else 1))"
    using ne x2 by (cases q') auto
qed

declare relaxLoop.simps [simp del] levelLoop.simps [simp del] bfsLoop.simps [simp del]

section \<open>Properties of the canvas\<close>

text \<open>
  Claim C6. For every point, pan offset and zoom greater than zero, mapping a world
  point to the screen and back gives the point again (over exact arithmetic).
\<close>

theorem screenToWorld_worldToScreen:
  assumes "0 < zoom"
  shows "screenToWorld (worldToScreen p pan zoom) pan zoom = p"
  using assms by (simp add: screenToWorld_def worldToScreen_def)

theorem screenToWorld_worldToScreen_witness:
  "(0::real) < 2 \<and>
   screenToWorld (worldToScreen \<lparr>posX = 3, posY = -7\<rparr> \<lparr>posX = 10, posY = 20\<rparr> 2)
     \<lparr>posX = 10, posY = 20\<rparr> 2 = \<lparr>posX = 3, posY = -7\<rparr>"
  using screenToWorld_worldToScreen [of 2 "\<lparr>posX = 3, posY = -7\<rparr>" "\<lparr>posX = 10, posY = 20\<rparr>"]
  by simp

lemma viewport_nonempty:
  fixes zoom :: real
  assumes "0 < zoom" "0 \<le> w"
  shows "- p / zoom - 200 \<le> (- p + w) / zoom + 200"
proof -
  have "- p \<le> - p + w" using assms by simp
  then have "- p / zoom \<le> (- p + w) / zoom"
    using assms(1) by (intro divide_right_mono) simp_all
  then show ?thesis by linarith
qed

lemma interval_overlap:
  fixes a b c d :: real
  assumes "a \<le> b" "c \<le> d"
  shows "(\<exists>t. a \<le> t \<and> t \<le> b \<and> c \<le> t \<and> t \<le> d) \<longleftrightarrow> \<not> (b < c \<or> a > d)"
proof
  assume "\<exists>t. a \<le> t \<and> t \<le> b \<and> c \<le> t \<and> t \<le> d"
  then show "\<not> (b < c \<or> a > d)" by auto
next
  assume h: "\<not> (b < c \<or> a > d)"
  have "a \<le> max a c \<and> max a c \<le> b \<and> c \<le> max a c \<and> max a c \<le> d"
    using assms h by auto
  then show "\<exists>t. a \<le> t \<and> t \<le> b \<and> c \<le> t \<and> t \<le> d" by blast
qed

text \<open>
  Claim C5. For a camera with zoom greater than zero (and a screen of non-negative
  width and height), a node is in the visible node list exactly when its bounding box,
  from its position to its position plus (120, 80), shares a point with the closed
  world rectangle with left \<open>-pan.x/zoom - 200\<close>, top \<open>-pan.y/zoom - 200\<close>,
  right \<open>(-pan.x + screenWidth)/zoom + 200\<close> and bottom
  \<open>(-pan.y + screenHeight)/zoom + 200\<close>; so no node that is even partially
  inside the buffered rectangle is left out.
\<close>

theorem visibleNodes_iff_box_intersects:
  assumes "0 < zoom" "0 \<le> SCREEN_WIDTH" "0 \<le> SCREEN_HEIGHT"
  shows "node \<in> set (visibleNodes (Some m) pan zoom SCREEN_WIDTH SCREEN_HEIGHT) \<longleftrightarrow>
     node \<in> set (Object_values (map_nodes m)) \<and>
     (\<exists>px py. posX (position node) \<le> px \<and> px \<le> posX (position node) + 120 \<and>
              posY (position node) \<le> py \<and> py \<le> posY (position node) + 80 \<and>
              - posX pan / zoom - 200 \<le> px \<and> px \<le> (- posX pan + SCREEN_WIDTH) / zoom + 200 \<and>
              - posY pan / zoom - 200 \<le> py \<and> py \<le> (- posY pan + SCREEN_HEIGHT) / zoom + 200)"
proof -
  let ?l = "- posX pan / zoom - 200" and ?r = "(- posX pan + SCREEN_WIDTH) / zoom + 200"
  let ?t = "- posY pan / zoom - 200" and ?b = "(- posY pan + SCREEN_HEIGHT) / zoom + 200"
  let ?nx = "posX (position node)" and ?ny = "posY (position node)"
  have hx: "(\<exists>px. ?nx \<le> px \<and> px \<le> ?nx + 120 \<and> ?l \<le> px \<and> px \<le> ?r) \<longleftrightarrow>
            \<not> (?nx + 120 < ?l \<or> ?nx > ?r)"
    by (rule interval_overlap) (simp, rule viewport_nonempty [OF assms(1,2)])
  have hy: "(\<exists>py. ?ny \<le> py \<and> py \<le> ?ny + 80 \<and> ?t \<le> py \<and> py \<le> ?b) \<longleftrightarrow>
            \<not> (?ny + 80 < ?t \<or> ?ny > ?b)"
    by (rule interval_overlap) (simp, rule viewport_nonempty [OF assms(1,3)])
  have split: "(\<exists>px py. ?nx \<le> px \<and> px \<le> ?nx + 120 \<and> ?ny \<le> py \<and> py \<le> ?ny + 80 \<and>
                  ?l \<le> px \<and> px \<le> ?r \<and> ?t \<le> py \<and> py \<le> ?b) \<longleftrightarrow>
        (\<exists>px. ?nx \<le> px \<and> px \<le> ?nx + 120 \<and> ?l \<le> px \<and> px \<le> ?r) \<and>
        (\<exists>py. ?ny \<le> py \<and> py \<le> ?ny + 80 \<and> ?t \<le> py \<and> py \<le> ?b)"
    by blast
  have "node \<in> set (visibleNodes (Some m) pan zoom SCREEN_WIDTH SCREEN_HEIGHT) \<longleftrightarrow>
        node \<in> set (Object_values (map_nodes m)) \<and>
        \<not> (?nx + 120 < ?l \<or> ?nx > ?r) \<and> \<not> (?ny + 80 < ?t \<or> ?ny > ?b)"
    by (auto simp: visibleNodes_def Let_def)
  then show ?thesis
    unfolding split hx hy by simp
qed

theorem visibleNodes_iff_box_intersects_witness:
  "(0::real) < 1 \<and> (0::real) \<le> 400 \<and> (0::real) \<le> 800 \<and>
   \<lparr>node_id = ''a'', position = \<lparr>posX = -320, posY = 0\<rparr>\<rparr>
     \<in> set (visibleNodes (Some exMap) \<lparr>posX = 0, posY = 0\<rparr> 1 400 800) \<and>
   (\<exists>px py. (-320::real) \<le> px \<and> px \<le> -320 + 120 \<and> (0::real) \<le> py \<and> py \<le> 0 + 80 \<and>
        - 0 / 1 - 200 \<le> px \<and> px \<le> (- 0 + 400) / 1 + 200 \<and>
        - 0 / 1 - 200 \<le> py \<and> py \<le> (- 0 + 800) / 1 + 200)"
  using visibleNodes_iff_box_intersects [of 1 400 800
      "\<lparr>node_id = ''a'', position = \<lparr>posX = -320, posY = 0\<rparr>\<rparr>" exMap "\<lparr>posX = 0, posY = 0\<rparr>"]
  by (simp add: visibleNodes_def exMap_def Object_values_def)

text \<open>
  Claim C9. When every node is stored under its own identifier and the visible nodes
  are nodes of the map, a connection is in the visible connection list exactly when
  both its endpoints are identifiers of visible nodes; a connection with only one
  visible endpoint is left out.
\<close>

theorem visibleConnections_iff_both_visible:
  assumes keyed: "map (\<lambda>(k, n). node_id n) (map_nodes m) = map fst (map_nodes m)"
    and sub: "set visNodes \<subseteq> set (Object_values (map_nodes m))"
  shows "c \<in> set (visibleConnections (Some m) visNodes) \<longleftrightarrow>
     c \<in> set (map_connections m) \<and>
     (\<exists>n \<in> set visNodes. node_id n = conn_from c) \<and>
     (\<exists>n \<in> set visNodes. node_id n = conn_to c)"
proof -
  have present: "map_of (map_nodes m) (node_id n) \<noteq> None" if "n \<in> set visNodes" for n
  proof -
    from that sub obtain k where "(k, n) \<in> set (map_nodes m)"
      by (auto simp: Object_values_def)
    moreover have "node_id n' = k'" if "(k', n') \<in> set (map_nodes m)" for k' n'
      using keyed that by (induction "map_nodes m" arbitrary: m) auto
    ultimately have "(node_id n, n) \<in> set (map_nodes m)" by auto
    then show ?thesis
      by (metis map_of_eq_None_iff fst_conv image_eqI)
  qed
  have "hasProperty (map_nodes m) (conn_from c)"
    if "n \<in> set visNodes" "node_id n = conn_from c" for n
    using present [OF that(1)] that(2) by (simp add: hasProperty_def)
  moreover have "hasProperty (map_nodes m) (conn_to c)"
    if "n \<in> set visNodes" "node_id n = conn_to c" for n
    using present [OF that(1)] that(2) by (simp add: hasProperty_def)
  ultimately show ?thesis
    by (auto simp: visibleConnections_def Let_def list_ex_iff)
qed

theorem visibleConnections_iff_both_visible_witness:
  "map (\<lambda>(k, n). node_id n) (map_nodes exMap) = map fst (map_nodes exMap) \<and>
   set (visibleNodes (Some exMap) \<lparr>posX = 0, posY = 0\<rparr> 1 400 800)
     \<subseteq> set (Object_values (map_nodes exMap)) \<and>
   visibleNodes (Some exMap) \<lparr>posX = 0, posY = 0\<rparr> 1 400 800
     = [\<lparr>node_id = ''a'', position = \<lparr>posX = -320, posY = 0\<rparr>\<rparr>] \<and>
   \<lparr>conn_id = ''c'', conn_from = ''a'', conn_to = ''b'', conn_type = related\<rparr>
     \<notin> set (visibleConnections (Some exMap)
          (visibleNodes (Some exMap) \<lparr>posX = 0, posY = 0\<rparr> 1 400 800))"
proof -
  have k: "map (\<lambda>(k, n). node_id n) (map_nodes exMap) = map fst (map_nodes exMap)"
    by (simp add: exMap_def)
  have v: "visibleNodes (Some exMap) \<lparr>posX = 0, posY = 0\<rparr> 1 400 800
     = [\<lparr>node_id = ''a'', position = \<lparr>posX = -320, posY = 0\<rparr>\<rparr>]"
    by (simp add: visibleNodes_def exMap_def Object_values_def)
  have s: "set (visibleNodes (Some exMap) \<lparr>posX = 0, posY = 0\<rparr> 1 400 800)
     \<subseteq> set (Object_values (map_nodes exMap))"
    unfolding v by (simp add: exMap_def Object_values_def)
  show ?thesis
    using visibleConnections_iff_both_visible [OF k s,
        of "\<lparr>conn_id = ''c'', conn_from = ''a'', conn_to = ''b'', conn_type = related\<rparr>"]
      k s v
    by simp
qed

section \<open>Properties of the layout service\<close>

lemmas example_defs = noOptions_def nodeAt_def edge_def Object_values_def
lemmas hierarchical_defs = applyLayout_def hierarchicalLayout_def buildGraph_def initNode_def
  addDependency_def releaseNode_def releaseTarget_def placeLevel_def placeNode_def
  lookupCounter_def orZeroPlusOne_def decrement_def Object_prototype_def
  or_default_def enumerate_eq_zip levelLoop.simps

lemma or_default_zero: "or_default (Some 0) d = or_default None d"
  by (simp add: or_default_def)

subsection \<open>Options\<close>



subsection \<open>Maps built by a loop of assignments\<close>

text \<open>
  The keys of the built map are those of the elements, and the value of a key is that
  of an element with this key (of the only one when the keys are distinct).
\<close>

lemma putAll_Nil [simp]: "putAll key g j [] m0 = m0"
  by (simp add: putAll_def)

lemma putAll_Cons [simp]:
  "putAll key g j (v # xs) m0 = putAll key g (Suc j) xs (m0(key v \<mapsto> g j v))"
  by (simp add: putAll_def)

lemma putAll_dom: "dom (putAll key g j xs m0) = dom m0 \<union> key ` set xs"
  by (induction xs arbitrary: j m0) auto

lemma putAll_other: "k \<notin> key ` set xs \<Longrightarrow> putAll key g j xs m0 k = m0 k"
  by (induction xs arbitrary: j m0) auto

lemma putAll_nth:
  "distinct (map key xs) \<Longrightarrow> i < length xs \<Longrightarrow>
   putAll key g j xs m0 (key (xs ! i)) = Some (g (j + i) (xs ! i))"
proof (induction xs arbitrary: j m0 i)
  case Nil
  then show ?case by simp
next
  case (Cons v xs)
  show ?case
  proof (cases i)
    case 0
    with Cons.prems show ?thesis by (simp add: putAll_other)
  next
    case (Suc i')
    with Cons.prems Cons.IH [of i' "Suc j"] show ?thesis by simp
  qed
qed

lemma putAll_value:
  "putAll key g j xs m0 k = Some p \<Longrightarrow> k \<in> key ` set xs \<Longrightarrow>
   \<exists>i<length xs. key (xs ! i) = k \<and> p = g (j + i) (xs ! i)"
proof (induction xs arbitrary: j m0)
  case Nil
  then show ?case by simp
next
  case (Cons v xs)
  show ?case
  proof (cases "k \<in> key ` set xs")
    case True
    from Cons.IH [OF _ True, of "Suc j"] Cons.prems(1)
    obtain i where "i < length xs" "key (xs ! i) = k" "p = g (Suc j + i) (xs ! i)"
      by auto
    then have "Suc i < length (v # xs) \<and> key ((v # xs) ! Suc i) = k \<and>
               p = g (j + Suc i) ((v # xs) ! Suc i)"
      by simp
    then show ?thesis by blast
  next
    case False
    with Cons.prems have kv: "k = key v" by auto
    from Cons.prems(1) False have "p = g j v"
      by (simp add: putAll_other kv)
    with kv have "0 < length (v # xs) \<and> key ((v # xs) ! 0) = k \<and> p = g (j + 0) ((v # xs) ! 0)"
      by simp
    then show ?thesis by blast
  qed
qed

subsection \<open>Circular layout\<close>

lemma circularLayout_putAll:
  "circularLayout nodes options =
     putAll node_id (\<lambda>index node.
         \<lparr>posX = or_default (centerX options) 0
                  + cos ((real index / real (length nodes)) * 2 * pi) * or_default (spacing options) 200,
          posY = or_default (centerY options) 0
                  + sin ((real index / real (length nodes)) * 2 * pi) * or_default (spacing options) 200\<rparr>)
       0 nodes Map.empty"
  by (simp add: circularLayout_def putAll_def Let_def)

lemma or_default_center: "or_default c 0 = (case c of None \<Rightarrow> 0 | Some v \<Rightarrow> v)"
  by (simp add: or_default_def split: option.splits)

lemma on_circle:
  fixes s :: real
  assumes "0 < s"
  shows "sqrt ((cx + cos a * s - cx)\<^sup>2 + (cy + sin a * s - cy)\<^sup>2) = s"
proof -
  have "(cos a * s)\<^sup>2 + (sin a * s)\<^sup>2 = s\<^sup>2 * ((sin a)\<^sup>2 + (cos a)\<^sup>2)"
    unfolding power_mult_distrib by (simp only: distrib_left mult.commute add.commute)
  also have "\<dots> = s\<^sup>2" by (simp only: sin_cos_squared_add mult_1_right)
  finally have "sqrt ((cos a * s)\<^sup>2 + (sin a * s)\<^sup>2) = s"
    using assms by simp
  then show ?thesis by simp
qed

text \<open>
  Claim C7. Circular layout of a non-empty node list with a positive spacing \<open>s\<close>
  puts the node at index \<open>i\<close> (identifiers distinct) at angle \<open>2\<pi>i/N\<close> on the
  circle of radius \<open>s\<close> around the configured center (the origin by default),
  whatever the edges are; every returned position is at distance \<open>s\<close> from the
  center.
\<close>

theorem circular_positions:
  assumes "algorithm options = circular" and "spacing options = Some s" and "0 < s"
    and "Object_values nodes \<noteq> []"
  shows "\<exists>positions. applyLayout nodes connections options = Inr positions \<and>
     (distinct (map node_id (Object_values nodes)) \<and> i < length (Object_values nodes) \<longrightarrow>
        positions (node_id (Object_values nodes ! i)) =
          Some \<lparr>posX = (case centerX options of None \<Rightarrow> 0 | Some c \<Rightarrow> c)
                    + cos ((real i / real (length (Object_values nodes))) * 2 * pi) * s,
                posY = (case centerY options of None \<Rightarrow> 0 | Some c \<Rightarrow> c)
                    + sin ((real i / real (length (Object_values nodes))) * 2 * pi) * s\<rparr>) \<and>
     (\<forall>k p. positions k = Some p \<longrightarrow>
        sqrt ((posX p - (case centerX options of None \<Rightarrow> 0 | Some c \<Rightarrow> c))\<^sup>2
            + (posY p - (case centerY options of None \<Rightarrow> 0 | Some c \<Rightarrow> c))\<^sup>2) = s)"
proof -
  let ?ns = "Object_values nodes"
  have r: "or_default (spacing options) 200 = s"
    using assms(2,3) by (simp add: or_default_def)
  have app: "applyLayout nodes connections options = Inr (circularLayout ?ns options)"
    using assms(1,4) by (simp add: applyLayout_def Let_def)
  have nth: "circularLayout ?ns options (node_id (?ns ! i)) =
          Some \<lparr>posX = (case centerX options of None \<Rightarrow> 0 | Some c \<Rightarrow> c)
                    + cos ((real i / real (length ?ns)) * 2 * pi) * s,
                posY = (case centerY options of None \<Rightarrow> 0 | Some c \<Rightarrow> c)
                    + sin ((real i / real (length ?ns)) * 2 * pi) * s\<rparr>"
    if "distinct (map node_id ?ns)" "i < length ?ns"
    unfolding circularLayout_putAll using putAll_nth [OF that, of _ 0]
    by (simp add: r or_default_center)
  have circ: "sqrt ((posX p - (case centerX options of None \<Rightarrow> 0 | Some c \<Rightarrow> c))\<^sup>2
            + (posY p - (case centerY options of None \<Rightarrow> 0 | Some c \<Rightarrow> c))\<^sup>2) = s"
    if "circularLayout ?ns options k = Some p" for k p
  proof -
    from that have "k \<in> dom (circularLayout ?ns options)" by blast
    then have "k \<in> node_id ` set ?ns"
      by (simp add: circularLayout_putAll putAll_dom)
    from putAll_value [OF that [unfolded circularLayout_putAll] this]
    obtain j where "p = \<lparr>posX = (case centerX options of None \<Rightarrow> 0 | Some c \<Rightarrow> c)
                    + cos ((real j / real (length ?ns)) * 2 * pi) * s,
                posY = (case centerY options of None \<Rightarrow> 0 | Some c \<Rightarrow> c)
                    + sin ((real j / real (length ?ns)) * 2 * pi) * s\<rparr>"
      by (auto simp: r or_default_center)
    then show ?thesis using on_circle [OF assms(3)] by simp
  qed
  show ?thesis using app nth circ by blast
qed

theorem circular_positions_witness:
  "algorithm ((noOptions circular)\<lparr>spacing := Some 100\<rparr>) = circular \<and>
   spacing ((noOptions circular)\<lparr>spacing := Some 100\<rparr>) = Some 100 \<and>
   Object_values [(''A'', nodeAt ''A'' 5 5), (''B'', nodeAt ''B'' 7 7)] \<noteq> [] \<and>
   (\<exists>positions.
      applyLayout [(''A'', nodeAt ''A'' 5 5), (''B'', nodeAt ''B'' 7 7)]
        [edge ''A'' ''B'' related] ((noOptions circular)\<lparr>spacing := Some 100\<rparr>)
        = Inr positions \<and>
      positions ''A'' = Some \<lparr>posX = 100, posY = 0\<rparr> \<and>
      positions ''B'' = Some \<lparr>posX = -100, posY = 0\<rparr>)"
proof -
  let ?nodes = "[(''A'', nodeAt ''A'' 5 5), (''B'', nodeAt ''B'' 7 7)]"
  let ?opts = "(noOptions circular)\<lparr>spacing := Some 100\<rparr>"
  have h: "algorithm ?opts = circular" "spacing ?opts = Some 100" "(0::real) < 100"
    "Object_values ?nodes \<noteq> []"
    by (simp_all add: example_defs)
  have d: "distinct (map node_id (Object_values ?nodes))" "length (Object_values ?nodes) = 2"
    "node_id (Object_values ?nodes ! 0) = ''A''" "node_id (Object_values ?nodes ! Suc 0) = ''B''"
    "centerX ?opts = None" "centerY ?opts = None"
    by (simp_all add: example_defs)
  from circular_positions [OF h, of "[edge ''A'' ''B'' related]" 0]
    circular_positions [OF h, of "[edge ''A'' ''B'' related]" 1]
  show ?thesis
    using h(1,2,4) by (auto simp: d)
qed

subsection \<open>Center on node\<close>

text \<open>
  A step of the traversal only adds: visited identifiers stay visited and keep their
  position, and the queue is never empty when an element is taken from it.
\<close>

lemma discover_visited_mono:
  assumes "discover nodes nodeId levelSize radius level conn (q, v, p) = (q', v', p')"
  shows "set v \<subseteq> set v' \<and> (\<forall>k \<in> set v. p' k = p k) \<and> length q \<le> length q'"
  using assms by (cases rule: discover_cases) auto

lemma fold_discover_visited_mono:
  "fold (discover nodes nodeId levelSize radius level) conns (q, v, p) = (q', v', p') \<Longrightarrow>
   set v \<subseteq> set v' \<and> (\<forall>k \<in> set v. p' k = p k) \<and> length q \<le> length q'"
proof (induction conns arbitrary: q v p)
  case Nil
  then show ?case by simp
next
  case (Cons c conns)
  obtain q1 v1 p1 where
    s: "discover nodes nodeId levelSize radius level c (q, v, p) = (q1, v1, p1)"
    by (cases "discover nodes nodeId levelSize radius level c (q, v, p)") auto
  with Cons.prems have
    "fold (discover nodes nodeId levelSize radius level) conns (q1, v1, p1) = (q', v', p')"
    by simp
  from Cons.IH [OF this] discover_visited_mono [OF s] show ?case
    by (auto simp: subset_iff)
qed

lemma visitLevel_returns:
  "rounds \<le> length q \<Longrightarrow>
   \<exists>state'. visitLevel nodes conns levelSize radius level rounds (q, v, p) = Inr state'"
proof (induction rounds arbitrary: q v p)
  case 0
  then show ?case by simp
next
  case (Suc rounds)
  then obtain item rest where q: "q = item # rest" by (cases q) auto
  obtain q1 v1 p1 where
    f: "fold (discover nodes (item_nodeId item) levelSize radius level) conns (rest, v, p)
        = (q1, v1, p1)"
    by (cases "fold (discover nodes (item_nodeId item) levelSize radius level) conns (rest, v, p)")
      auto
  from fold_discover_visited_mono [OF f] Suc.prems q have "rounds \<le> length q1" by simp
  from Suc.IH [OF this, of v1 p1] q f show ?case by simp
qed

lemma visitLevel_visited_mono:
  "visitLevel nodes conns levelSize radius level rounds (q, v, p) = Inr (q', v', p') \<Longrightarrow>
   set v \<subseteq> set v' \<and> (\<forall>k \<in> set v. p' k = p k)"
proof (induction rounds arbitrary: q v p)
  case 0
  then show ?case by simp
next
  case (Suc rounds)
  from Suc.prems obtain item rest where q: "q = item # rest" by (cases q) auto
  obtain q1 v1 p1 where
    f: "fold (discover nodes (item_nodeId item) levelSize radius level) conns (rest, v, p)
        = (q1, v1, p1)"
    by (cases "fold (discover nodes (item_nodeId item) levelSize radius level) conns (rest, v, p)")
      auto
  with Suc.prems q have
    "visitLevel nodes conns levelSize radius level rounds (q1, v1, p1) = Inr (q', v', p')"
    by simp
  from Suc.IH [OF this] fold_discover_visited_mono [OF f] show ?case
    by (auto simp: subset_iff)
qed

lemma bfsLoop_returns: "\<exists>positions. bfsLoop nodes conns level state = Inr positions"
proof (induction nodes conns level state rule: bfsLoop.induct)
  case (1 nodes conns level q v p)
  show ?case
  proof (cases "q = []")
    case True
    then show ?thesis by (simp add: bfsLoop.simps)
  next
    case False
    from visitLevel_returns [of "length q" q nodes conns "length q" "(real level + 1) * 150" level v p]
    obtain state' where
      s: "visitLevel nodes conns (length q) ((real level + 1) * 150) level (length q) (q, v, p)
          = Inr state'"
      by auto
    from "1.IH" [OF False refl refl s] s False show ?thesis
      by (simp add: bfsLoop.simps [of nodes conns level q v p] Let_def)
  qed
qed

lemma bfsLoop_keeps_visited:
  "bfsLoop nodes conns level (q, v, p) = Inr positions \<Longrightarrow> k \<in> set v \<Longrightarrow> positions k = p k"
proof (induction nodes conns level "(q, v, p)" arbitrary: q v p rule: bfsLoop.induct)
  case (1 nodes conns level q v p)
  show ?case
  proof (cases "q = []")
    case True
    with "1.prems" show ?thesis by (simp add: bfsLoop.simps)
  next
    case False
    with "1.prems"(1) obtain q' v' p' where
      s: "visitLevel nodes conns (length q) ((real level + 1) * 150) level (length q) (q, v, p)
          = Inr (q', v', p')"
      and r: "bfsLoop nodes conns (level + 1) (q', v', p') = Inr positions"
      by (auto simp: bfsLoop.simps [of nodes conns level q v p] Let_def split: sum.splits)
    from visitLevel_visited_mono [OF s] "1.prems"(2) have "k \<in> set v'" "p' k = p k" by auto
    with "1.hyps" [OF False refl refl s r] show ?thesis by simp
  qed
qed

lemma discover_firstRing:
  assumes "discover nodes focus levelSize 150 level conn (q, v, p) = (q', v', p')"
    and "firstRing focus (q, v, p)"
  shows "firstRing focus (q', v', p')"
  using assms(1)
proof (cases rule: discover_cases)
  case skip
  with assms(2) show ?thesis by simp
next
  case (add k a)
  from assms(2) add(1) have "k \<noteq> focus" by (auto simp: firstRing_def)
  with assms(2) add show ?thesis
    by (auto simp: firstRing_def)
qed

lemma discover_reaches:
  assumes "discover nodes focus levelSize radius level conn (q, v, p) = (q', v', p')"
    and "focus \<in> set v"
    and "(conn_from conn = focus \<and> conn_to conn = n) \<or>
         (conn_to conn = focus \<and> conn_from conn = n)"
    and "n \<noteq> []" and "hasProperty nodes n"
  shows "n \<in> set v'"
proof (cases "n \<in> set v")
  case True
  with discover_visited_mono [OF assms(1)] show ?thesis by auto
next
  case False
  with assms(2) have nf: "n \<noteq> focus" by auto
  let ?a = "(real (length v) / real (max 6 (levelSize * 2))) * 2 * pi"
  from assms(3) False nf assms(2) have
    "(if conn_from conn = focus \<and> conn_to conn \<notin> set v then Some (conn_to conn)
      else if conn_to conn = focus \<and> conn_from conn \<notin> set v then Some (conn_from conn)
      else None) = Some n"
    by auto
  with assms(1,4,5) have "v' = Set_add n v"
    unfolding discover_def Let_def by simp
  then show ?thesis by (simp add: Set_add_def)
qed

lemma fold_discover_firstRing:
  "fold (discover nodes focus levelSize 150 level) conns (q, v, p) = (q', v', p') \<Longrightarrow>
   firstRing focus (q, v, p) \<Longrightarrow> firstRing focus (q', v', p')"
proof (induction conns arbitrary: q v p)
  case Nil
  then show ?case by simp
next
  case (Cons c conns)
  obtain q1 v1 p1 where
    s: "discover nodes focus levelSize 150 level c (q, v, p) = (q1, v1, p1)"
    by (cases "discover nodes focus levelSize 150 level c (q, v, p)") auto
  with Cons.prems have
    f: "fold (discover nodes focus levelSize 150 level) conns (q1, v1, p1) = (q', v', p')"
    by simp
  from Cons.IH [OF f discover_firstRing [OF s Cons.prems(2)]] show ?case .
qed

lemma fold_discover_reaches:
  "fold (discover nodes focus levelSize radius level) conns (q, v, p) = (q', v', p') \<Longrightarrow>
   focus \<in> set v \<Longrightarrow> c \<in> set conns \<Longrightarrow>
   (conn_from c = focus \<and> conn_to c = n) \<or> (conn_to c = focus \<and> conn_from c = n) \<Longrightarrow>
   n \<noteq> [] \<Longrightarrow> hasProperty nodes n \<Longrightarrow> n \<in> set v'"
proof (induction conns arbitrary: q v p)
  case Nil
  then show ?case by simp
next
  case (Cons c' conns)
  obtain q1 v1 p1 where
    s: "discover nodes focus levelSize radius level c' (q, v, p) = (q1, v1, p1)"
    by (cases "discover nodes focus levelSize radius level c' (q, v, p)") auto
  with Cons.prems have
    f: "fold (discover nodes focus levelSize radius level) conns (q1, v1, p1) = (q', v', p')"
    by simp
  have fv: "focus \<in> set v1"
    using discover_visited_mono [OF s] Cons.prems(2) by auto
  show ?case
  proof (cases "c = c'")
    case True
    from discover_reaches [OF s Cons.prems(2) Cons.prems(4) [unfolded True] Cons.prems(5,6)]
    have "n \<in> set v1" .
    with fold_discover_visited_mono [OF f] show ?thesis by auto
  next
    case False
    with Cons.prems(3) have "c \<in> set conns" by simp
    from Cons.IH [OF f fv this Cons.prems(4,5,6)] show ?thesis .
  qed
qed

lemma ring_radius: "sqrt ((cos a * 150)\<^sup>2 + (sin a * 150)\<^sup>2) = (150::real)"
  using on_circle [of 150 0 a 0] by simp

text \<open>
  Claim C8. When the focus node is a property of \<^verbatim>\<open>nodes\<close>, center-on-node
  returns a mapping in which the focus node is at the origin (0, 0), and every direct
  neighbour of the focus node (another node of \<^verbatim>\<open>nodes\<close>, with a non-empty
  identifier, at the other end of a connection of any type from or to the focus node)
  is at Euclidean distance exactly 150 from the origin.
\<close>

theorem centerOnNode_focus_and_neighbours:
  assumes "map_of nodes focus \<noteq> None"
  shows "\<exists>positions. centerOnNode nodes focus connections = Inr positions \<and>
     positions focus = Some \<lparr>posX = 0, posY = 0\<rparr> \<and>
     (\<forall>c \<in> set connections. \<forall>n.
        ((conn_from c = focus \<and> conn_to c = n) \<or> (conn_to c = focus \<and> conn_from c = n)) \<and>
        n \<noteq> focus \<and> n \<noteq> [] \<and> map_of nodes n \<noteq> None \<longrightarrow>
        (\<exists>p. positions n = Some p \<and> sqrt ((posX p)\<^sup>2 + (posY p)\<^sup>2) = 150))"
proof -
  let ?item = "\<lparr>item_nodeId = focus, item_level = 0, item_angle = 0\<rparr>"
  let ?p0 = "[focus \<mapsto> \<lparr>posX = 0, posY = 0\<rparr>]"
  obtain q1 v1 p1 where
    f: "fold (discover nodes focus 1 150 0) connections ([], [focus], ?p0) = (q1, v1, p1)"
    by (cases "fold (discover nodes focus 1 150 0) connections ([], [focus], ?p0)") auto
  obtain positions where b: "bfsLoop nodes connections 1 (q1, v1, p1) = Inr positions"
    using bfsLoop_returns by blast
  have hf: "hasProperty nodes focus" using assms by (simp add: hasProperty_def)
  have c: "centerOnNode nodes focus connections = Inr positions"
    using hf f b
    by (simp add: centerOnNode_def Set_add_def bfsLoop.simps [of _ _ 0] Let_def)
  have ring: "firstRing focus (q1, v1, p1)"
    by (rule fold_discover_firstRing [OF f]) (simp add: firstRing_def)
  then have pf: "positions focus = Some \<lparr>posX = 0, posY = 0\<rparr>"
    using bfsLoop_keeps_visited [OF b, of focus] by (simp add: firstRing_def)
  have nb: "\<exists>p. positions n = Some p \<and> sqrt ((posX p)\<^sup>2 + (posY p)\<^sup>2) = 150"
    if "c \<in> set connections"
      "(conn_from c = focus \<and> conn_to c = n) \<or> (conn_to c = focus \<and> conn_from c = n)"
      "n \<noteq> focus" "n \<noteq> []" "map_of nodes n \<noteq> None" for c n
  proof -
    from that(5) have "hasProperty nodes n" by (simp add: hasProperty_def)
    with f that(1,2,4) have "n \<in> set v1"
      by (intro fold_discover_reaches [OF f _ that(1,2,4)]) simp_all
    with ring that(3) obtain a where
      "p1 n = Some \<lparr>posX = cos a * 150, posY = sin a * 150\<rparr>"
      by (auto simp: firstRing_def)
    with bfsLoop_keeps_visited [OF b \<open>n \<in> set v1\<close>] have
      "positions n = Some \<lparr>posX = cos a * 150, posY = sin a * 150\<rparr>" by simp
    moreover have "sqrt ((posX \<lparr>posX = cos a * 150, posY = sin a * 150\<rparr>)\<^sup>2
        + (posY \<lparr>posX = cos a * 150, posY = sin a * 150\<rparr>)\<^sup>2) = 150"
      using ring_radius [of a] by (simp only: Position.simps)
    ultimately show ?thesis by blast
  qed
  show ?thesis using c pf nb by blast
qed

theorem centerOnNode_focus_and_neighbours_witness:
  "map_of [(''A'', nodeAt ''A'' 5 5), (''B'', nodeAt ''B'' 7 7), (''C'', nodeAt ''C'' 9 9)] ''A''
     \<noteq> None \<and>
   (\<exists>positions.
      centerOnNode [(''A'', nodeAt ''A'' 5 5), (''B'', nodeAt ''B'' 7 7), (''C'', nodeAt ''C'' 9 9)]
        ''A'' [edge ''A'' ''B'' related, edge ''C'' ''A'' dependency] = Inr positions \<and>
      positions ''A'' = Some \<lparr>posX = 0, posY = 0\<rparr> \<and>
      (\<exists>p. positions ''B'' = Some p \<and> sqrt ((posX p)\<^sup>2 + (posY p)\<^sup>2) = 150) \<and>
      (\<exists>p. positions ''C'' = Some p \<and> sqrt ((posX p)\<^sup>2 + (posY p)\<^sup>2) = 150))"
proof -
  define ns where "ns = [(''A'', nodeAt ''A'' 5 5), (''B'', nodeAt ''B'' 7 7), (''C'', nodeAt ''C'' 9 9)]"
  define cs where "cs = [edge ''A'' ''B'' related, edge ''C'' ''A'' dependency]"
  have h: "map_of ns ''A'' \<noteq> None" by (simp add: ns_def)
  have hB: "map_of ns ''B'' \<noteq> None" by (simp add: ns_def)
  have hC: "map_of ns ''C'' \<noteq> None" by (simp add: ns_def)
  have e1: "edge ''A'' ''B'' related \<in> set cs" by (simp add: cs_def)
  have e2: "edge ''C'' ''A'' dependency \<in> set cs" by (simp add: cs_def)
  have a1: "conn_from (edge ''A'' ''B'' related) = ''A''" "conn_to (edge ''A'' ''B'' related) = ''B''"
    by (simp_all add: edge_def)
  have a2: "conn_from (edge ''C'' ''A'' dependency) = ''C''" "conn_to (edge ''C'' ''A'' dependency) = ''A''"
    by (simp_all add: edge_def)
  have d: "''B'' \<noteq> ''A''" "''C'' \<noteq> ''A''" "''B'' \<noteq> []" "''C'' \<noteq> []" by simp_all
  from centerOnNode_focus_and_neighbours [OF h, of cs]
  obtain positions where
    c: "centerOnNode ns ''A'' cs = Inr positions"
    and f: "positions ''A'' = Some \<lparr>posX = 0, posY = 0\<rparr>"
    and n: "\<forall>c \<in> set cs. \<forall>n.
        ((conn_from c = ''A'' \<and> conn_to c = n) \<or> (conn_to c = ''A'' \<and> conn_from c = n)) \<and>
        n \<noteq> ''A'' \<and> n \<noteq> [] \<and> map_of ns n \<noteq> None \<longrightarrow>
        (\<exists>p. positions n = Some p \<and> sqrt ((posX p)\<^sup>2 + (posY p)\<^sup>2) = 150)"
    by (elim exE conjE)
  have "\<exists>p. positions ''B'' = Some p \<and> sqrt ((posX p)\<^sup>2 + (posY p)\<^sup>2) = 150"
    using n [rule_format, OF e1, of "''B''"] a1 d hB by blast
  moreover have "\<exists>p. positions ''C'' = Some p \<and> sqrt ((posX p)\<^sup>2 + (posY p)\<^sup>2) = 150"
    using n [rule_format, OF e2, of "''C''"] a2 d hC by blast
  ultimately have "\<exists>positions. centerOnNode ns ''A'' cs = Inr positions \<and>
      positions ''A'' = Some \<lparr>posX = 0, posY = 0\<rparr> \<and>
      (\<exists>p. positions ''B'' = Some p \<and> sqrt ((posX p)\<^sup>2 + (posY p)\<^sup>2) = 150) \<and>
      (\<exists>p. positions ''C'' = Some p \<and> sqrt ((posX p)\<^sup>2 + (posY p)\<^sup>2) = 150)"
    using c f by (intro exI [of _ positions] conjI)
  with h show ?thesis unfolding ns_def cs_def by (rule conjI)
qed

subsection \<open>What center-on-node reaches\<close>

text \<open>
  The traversal visits exactly the names that can be reached from the focus node by
  its steps.
\<close>

lemma discover_expanding:
  assumes "discover nodes k0 levelSize radius level conn (q, v, p) = (q', v', p')"
    and "expandingInv nodes cs focus k0 (q, v, p)"
    and "conn \<in> set cs"
  shows "expandingInv nodes cs focus k0 (q', v', p')"
  using assms(1)
proof (cases rule: discover_cases)
  case skip
  with assms(2) show ?thesis by simp
next
  case (add k a)
  from assms(2) have
    i1: "item_nodeId ` set q \<subseteq> set v" and i2: "dom p = set v" and i3: "focus \<in> set v"
    and i4: "k0 \<in> set v" and i5: "set v \<subseteq> (steps nodes cs)\<^sup>* `` {focus}"
    and i6: "\<forall>k \<in> set v. k \<notin> item_nodeId ` set q \<longrightarrow> k \<noteq> k0 \<longrightarrow> steps nodes cs `` {k} \<subseteq> set v"
    by (simp_all add: expandingInv_def)
  from add(2,3,4) assms(3) have "(k0, k) \<in> steps nodes cs"
    unfolding steps_def by blast
  moreover from i4 i5 have "(focus, k0) \<in> (steps nodes cs)\<^sup>*" by blast
  ultimately have "(focus, k) \<in> (steps nodes cs)\<^sup>*" by (rule rtrancl_into_rtrancl [rotated])
  with i5 have r: "set v' \<subseteq> (steps nodes cs)\<^sup>* `` {focus}" by (auto simp: add(6))
  have c: "\<forall>j \<in> set v'. j \<notin> item_nodeId ` set q' \<longrightarrow> j \<noteq> k0 \<longrightarrow> steps nodes cs `` {j} \<subseteq> set v'"
  proof (intro ballI impI)
    fix j assume j: "j \<in> set v'" "j \<notin> item_nodeId ` set q'" "j \<noteq> k0"
    from j(2) have "j \<noteq> k" "j \<notin> item_nodeId ` set q" by (auto simp: add(5))
    with j(1,3) i6 have "steps nodes cs `` {j} \<subseteq> set v" by (auto simp: add(6))
    then show "steps nodes cs `` {j} \<subseteq> set v'" by (auto simp: add(6))
  qed
  have "item_nodeId ` set q' \<subseteq> set v'" using i1 by (auto simp: add(5,6))
  moreover have "dom p' = set v'" using i2 by (auto simp: add(6,7))
  moreover have "focus \<in> set v'" "k0 \<in> set v'" using i3 i4 by (simp_all add: add(6))
  ultimately show ?thesis using r c by (simp add: expandingInv_def)
qed

lemma fold_discover_expanding:
  "fold (discover nodes k0 levelSize radius level) conns (q, v, p) = (q', v', p') \<Longrightarrow>
   expandingInv nodes cs focus k0 (q, v, p) \<Longrightarrow> set conns \<subseteq> set cs \<Longrightarrow>
   expandingInv nodes cs focus k0 (q', v', p')"
proof (induction conns arbitrary: q v p)
  case Nil
  then show ?case by simp
next
  case (Cons c conns)
  obtain q1 v1 p1 where
    s: "discover nodes k0 levelSize radius level c (q, v, p) = (q1, v1, p1)"
    by (cases "discover nodes k0 levelSize radius level c (q, v, p)") auto
  with Cons.prems have
    f: "fold (discover nodes k0 levelSize radius level) conns (q1, v1, p1) = (q', v', p')"
    by simp
  from Cons.prems(3) have "c \<in> set cs" "set conns \<subseteq> set cs" by simp_all
  from Cons.IH [OF f discover_expanding [OF s Cons.prems(2) this(1)] this(2)] show ?case .
qed

lemma expand_traversalInv:
  assumes "fold (discover nodes (item_nodeId item) levelSize radius level) cs (rest, v, p)
           = (q', v', p')"
    and "traversalInv nodes cs focus (item # rest, v, p)"
  shows "traversalInv nodes cs focus (q', v', p')"
proof -
  let ?k0 = "item_nodeId item"
  from assms(2) have k0: "?k0 \<in> set v" by (auto simp: traversalInv_def)
  from assms(2) have "expandingInv nodes cs focus ?k0 (rest, v, p)"
    by (auto simp: traversalInv_def expandingInv_def)
  from fold_discover_expanding [OF assms(1) this] have
    e: "expandingInv nodes cs focus ?k0 (q', v', p')" by simp
  have "steps nodes cs `` {?k0} \<subseteq> set v'"
  proof
    fix n assume "n \<in> steps nodes cs `` {?k0}"
    then obtain c where c: "c \<in> set cs"
      "(conn_from c = ?k0 \<and> conn_to c = n) \<or> (conn_to c = ?k0 \<and> conn_from c = n)"
      "n \<noteq> []" "hasProperty nodes n"
      unfolding steps_def by blast
    from fold_discover_reaches [OF assms(1) k0 c] show "n \<in> set v'" .
  qed
  with e show ?thesis
    unfolding traversalInv_def expandingInv_def by (simp only: prod.case) blast
qed

lemma visitLevel_traversalInv:
  "visitLevel nodes cs levelSize radius level rounds (q, v, p) = Inr (q', v', p') \<Longrightarrow>
   traversalInv nodes cs focus (q, v, p) \<Longrightarrow> traversalInv nodes cs focus (q', v', p')"
proof (induction rounds arbitrary: q v p)
  case 0
  then show ?case by simp
next
  case (Suc rounds)
  from Suc.prems obtain item rest where q: "q = item # rest" by (cases q) auto
  obtain q1 v1 p1 where
    f: "fold (discover nodes (item_nodeId item) levelSize radius level) cs (rest, v, p)
        = (q1, v1, p1)"
    by (cases "fold (discover nodes (item_nodeId item) levelSize radius level) cs (rest, v, p)")
      auto
  with Suc.prems q have
    "visitLevel nodes cs levelSize radius level rounds (q1, v1, p1) = Inr (q', v', p')"
    by simp
  from Suc.IH [OF this expand_traversalInv [OF f Suc.prems(2) [unfolded q]]] show ?case .
qed

lemma bfsLoop_dom:
  "bfsLoop nodes cs level (q, v, p) = Inr positions \<Longrightarrow>
   traversalInv nodes cs focus (q, v, p) \<Longrightarrow> dom positions = (steps nodes cs)\<^sup>* `` {focus}"
proof (induction nodes cs level "(q, v, p)" arbitrary: q v p rule: bfsLoop.induct)
  case (1 nodes cs level q v p)
  show ?case
  proof (cases "q = []")
    case True
    with "1.prems"(1) have pp: "positions = p" by (simp add: bfsLoop.simps)
    from "1.prems"(2) True have
      d: "dom p = set v" and f: "focus \<in> set v" and r: "set v \<subseteq> (steps nodes cs)\<^sup>* `` {focus}"
      and c: "\<forall>k \<in> set v. steps nodes cs `` {k} \<subseteq> set v"
      by (simp_all add: traversalInv_def)
    have "k \<in> set v" if "(focus, k) \<in> (steps nodes cs)\<^sup>*" for k
      using that by (induction rule: rtrancl_induct) (use f c in auto)
    with r d pp show ?thesis by auto
  next
    case False
    with "1.prems"(1) obtain q' v' p' where
      s: "visitLevel nodes cs (length q) ((real level + 1) * 150) level (length q) (q, v, p)
          = Inr (q', v', p')"
      and b: "bfsLoop nodes cs (level + 1) (q', v', p') = Inr positions"
      by (auto simp: bfsLoop.simps [of nodes cs level q v p] Let_def split: sum.splits)
    from "1.hyps" [OF False refl refl s b visitLevel_traversalInv [OF s "1.prems"(2)]]
    show ?thesis .
  qed
qed

lemma centerOnNode_dom:
  assumes "hasProperty nodes focus"
  shows "\<exists>positions. centerOnNode nodes focus cs = Inr positions \<and>
           dom positions = (steps nodes cs)\<^sup>* `` {focus}"
proof -
  let ?s = "([\<lparr>item_nodeId = focus, item_level = 0, item_angle = 0\<rparr>], [focus],
             [focus \<mapsto> \<lparr>posX = 0, posY = 0\<rparr>])"
  obtain positions where b: "bfsLoop nodes cs 0 ?s = Inr positions"
    using bfsLoop_returns by blast
  have "traversalInv nodes cs focus ?s" by (simp add: traversalInv_def)
  from bfsLoop_dom [OF b this] b assms show ?thesis
    by (simp add: centerOnNode_def Set_add_def)
qed

text \<open>
  When no edge ends in an inherited name, the steps are the links between the nodes
  that \<^verbatim>\<open>nodes\<close> has itself.
\<close>

lemma steps_links:
  assumes "\<forall>c \<in> set cs. conn_from c \<notin> set Object_prototype \<and> conn_to c \<notin> set Object_prototype"
  shows "steps nodes cs = links nodes cs"
proof -
  have "hasProperty nodes b \<longleftrightarrow> b \<in> fst ` set nodes"
    if "c \<in> set cs" "(conn_from c = a \<and> conn_to c = b) \<or> (conn_to c = a \<and> conn_from c = b)"
    for a b c
    using that assms by (auto simp: hasProperty_def map_of_eq_None_iff)
  then show ?thesis unfolding steps_def links_def by blast
qed

subsection \<open>Hierarchical layout\<close>

lemma lookupNode_Some: "lookupNode nodes k = Some n \<Longrightarrow> node_id n = k \<and> n \<in> set nodes"
  by (auto simp: lookupNode_def find_Some_iff)

lemma lookupNode_None: "lookupNode nodes k = None \<longleftrightarrow> k \<notin> node_id ` set nodes"
  by (auto simp: lookupNode_def find_None_iff)

lemma lookupNode_distinct:
  "distinct (map node_id nodes) \<Longrightarrow> n \<in> set nodes \<Longrightarrow> lookupNode nodes (node_id n) = Some n"
  by (induction nodes) (auto simp: lookupNode_def)

lemma forEach_append:
  "forEach f (xs @ ys) s = (case forEach f xs s of Inl e \<Rightarrow> Inl e | Inr s' \<Rightarrow> forEach f ys s')"
  by (induction xs arbitrary: s) (auto split: sum.splits)

text \<open>What the two tables hold after the dependency edges were entered.\<close>

lemma initNode_apply:
  "initNode n (g, d) = (g(node_id n \<mapsto> []), fmupd (node_id n) (Count 0) d)"
  by (simp add: initNode_def)

lemma counted_snoc:
  "counted nodes (cs @ [c]) =
     (if isDep c \<and> conn_to c \<notin> set Object_prototype
      then insert (conn_to c) (counted nodes cs) else counted nodes cs)"
  by (auto simp: counted_def)

lemma remaining_snoc:
  "remaining (cs @ [c]) P t =
     remaining cs P t + (if isDep c \<and> conn_to c = t \<and> conn_from c \<notin> P then 1 else 0)"
  by (simp add: remaining_def)

lemma targetsOf_snoc:
  "targetsOf (cs @ [c]) k =
     targetsOf cs k @ (if isDep c \<and> conn_from c = k then [conn_to c] else [])"
  by (simp add: targetsOf_def)

lemma remaining_no_target: "t \<notin> conn_to ` {c \<in> set cs. isDep c} \<Longrightarrow> remaining cs P t = 0"
  by (auto simp: remaining_def filter_empty_conv)

lemma counted_target:
  "t \<notin> counted nodes cs \<Longrightarrow> t \<in> conn_to ` {c \<in> set cs. isDep c} \<Longrightarrow> t \<in> set Object_prototype"
  by (auto simp: counted_def)

lemma fold_initNode:
  "fold initNode nodes (g, d) = (g', d') \<Longrightarrow>
   (\<forall>k. g' k = (if k \<in> node_id ` set nodes then Some [] else g k)) \<and>
   (\<forall>k. fmlookup d' k = (if k \<in> node_id ` set nodes then Some (Count 0) else fmlookup d k))"
proof (induction nodes arbitrary: g d)
  case Nil
  then show ?case by simp
next
  case (Cons n nodes)
  from Cons.prems have
    "fold initNode nodes (g(node_id n \<mapsto> []), fmupd (node_id n) (Count 0) d) = (g', d')"
    by (simp add: initNode_apply)
  from Cons.IH [OF this] show ?case by auto
qed

lemma buildGraph_tables:
  "buildGraph nodes cs = Inr (graph, inDegree) \<Longrightarrow>
   (\<forall>k. graph k = (if k \<in> node_id ` set nodes then Some (targetsOf cs k) else None)) \<and>
   (\<forall>k \<in> counted nodes cs. fmlookup inDegree k = Some (Count (int (remaining cs {} k)))) \<and>
   (\<forall>k. k \<notin> counted nodes cs \<longrightarrow>
        fmlookup inDegree k =
          (if k \<in> conn_to ` {c \<in> set cs. isDep c} then Some NotNumeric else None)) \<and>
   (\<forall>c \<in> set cs. isDep c \<longrightarrow> conn_from c \<in> node_id ` set nodes)"
proof (induction cs arbitrary: graph inDegree rule: rev_induct)
  case Nil
  obtain g d where i: "fold initNode nodes (Map.empty, fmempty) = (g, d)"
    by (cases "fold initNode nodes (Map.empty, fmempty)")
  with Nil have "g = graph" "d = inDegree" by (simp_all add: buildGraph_def)
  with fold_initNode [OF i] show ?case
    by (simp add: targetsOf_def counted_def remaining_def)
next
  case (snoc c cs)
  from snoc.prems obtain g d where
    b: "buildGraph nodes cs = Inr (g, d)" and a: "addDependency c (g, d) = Inr (graph, inDegree)"
    by (auto simp: buildGraph_def forEach_append split: sum.splits)
  from snoc.IH [OF b] have
    IHg: "\<And>k. g k = (if k \<in> node_id ` set nodes then Some (targetsOf cs k) else None)"
    and IHc: "\<And>k. k \<in> counted nodes cs \<Longrightarrow> fmlookup d k = Some (Count (int (remaining cs {} k)))"
    and IHn: "\<And>k. k \<notin> counted nodes cs \<Longrightarrow>
        fmlookup d k = (if k \<in> conn_to ` {c \<in> set cs. isDep c} then Some NotNumeric else None)"
    and IHf: "\<And>c. c \<in> set cs \<Longrightarrow> isDep c \<Longrightarrow> conn_from c \<in> node_id ` set nodes"
    by auto
  show ?case
  proof (cases "isDep c")
    case False
    with a have e: "graph = g" "inDegree = d" by (simp_all add: addDependency_def isDep_def)
    have t: "conn_to ` {c' \<in> set (cs @ [c]). isDep c'} = conn_to ` {c \<in> set cs. isDep c}"
      using False by auto
    from IHg IHc IHn IHf False show ?thesis
      unfolding e t by (simp add: targetsOf_snoc counted_snoc remaining_snoc)
  next
    case True
    let ?t = "conn_to c"
    from True a obtain ts where gf: "g (conn_from c) = Some ts"
      and graph: "graph = g(conn_from c \<mapsto> ts @ [?t])"
      and inDegree: "inDegree = fmupd ?t (orZeroPlusOne (lookupCounter d ?t)) d"
      by (auto simp: addDependency_def isDep_def split: option.splits)
    from gf IHg [of "conn_from c"] have from_in: "conn_from c \<in> node_id ` set nodes"
      by (auto split: if_splits)
    have t: "conn_to ` {c' \<in> set (cs @ [c]). isDep c'} = insert ?t (conn_to ` {c \<in> set cs. isDep c})"
      using True by auto
    have g1: "graph k = (if k \<in> node_id ` set nodes then Some (targetsOf (cs @ [c]) k) else None)"
      for k
      using IHg [of k] gf True from_in by (auto simp: graph targetsOf_snoc)
    have new: "orZeroPlusOne (lookupCounter d ?t) =
        (if ?t \<in> counted nodes (cs @ [c]) then Count (int (remaining (cs @ [c]) {} ?t))
         else NotNumeric)"
    proof (cases "?t \<in> counted nodes cs")
      case True
      with IHc [OF True] \<open>isDep c\<close> show ?thesis
        by (simp add: lookupCounter_def orZeroPlusOne_def counted_snoc remaining_snoc)
    next
      case nc: False
      show ?thesis
      proof (cases "?t \<in> set Object_prototype")
        case True
        with IHn [OF nc] have "lookupCounter d ?t = Some NotNumeric"
          by (simp add: lookupCounter_def)
        with True nc \<open>isDep c\<close> show ?thesis
          by (simp add: orZeroPlusOne_def counted_snoc)
      next
        case False
        with nc have nt: "?t \<notin> conn_to ` {c \<in> set cs. isDep c}"
          using counted_target by blast
        with IHn [OF nc] False have "lookupCounter d ?t = None"
          by (simp add: lookupCounter_def)
        with False \<open>isDep c\<close> remaining_no_target [OF nt, of "{}"] show ?thesis
          by (simp add: orZeroPlusOne_def counted_snoc remaining_snoc)
      qed
    qed
    have d1: "fmlookup inDegree k = Some (Count (int (remaining (cs @ [c]) {} k)))"
      if "k \<in> counted nodes (cs @ [c])" for k
    proof (cases "k = ?t")
      case True
      with that new show ?thesis by (simp add: inDegree)
    next
      case False
      with that \<open>isDep c\<close> have "k \<in> counted nodes cs" by (auto simp: counted_snoc split: if_splits)
      from IHc [OF this] False show ?thesis by (simp add: inDegree remaining_snoc)
    qed
    have d2: "fmlookup inDegree k =
        (if k \<in> conn_to ` {c' \<in> set (cs @ [c]). isDep c'} then Some NotNumeric else None)"
      if "k \<notin> counted nodes (cs @ [c])" for k
    proof (cases "k = ?t")
      case True
      with that new show ?thesis unfolding t by (simp add: inDegree)
    next
      case False
      from that have "k \<notin> counted nodes cs" by (auto simp: counted_snoc split: if_splits)
      from IHn [OF this] False show ?thesis unfolding t by (simp add: inDegree)
    qed
    from g1 d1 d2 IHf from_in show ?thesis by auto
  qed
qed

text \<open>The level loop releases identifiers; the nodes are looked up afterwards.\<close>

lemma releaseTarget_releaseId:
  "releaseTarget nodes t (d, map (lookupNode nodes) ids) =
     map_prod id (map (lookupNode nodes)) (releaseId t (d, ids))"
  by (simp add: releaseTarget_def releaseId_def lookupNode_def Let_def)

lemma fold_releaseTarget_releaseId:
  "fold (releaseTarget nodes) ts (d, map (lookupNode nodes) ids) =
     map_prod id (map (lookupNode nodes)) (fold releaseId ts (d, ids))"
proof (induction ts arbitrary: d ids)
  case Nil
  then show ?case by simp
next
  case (Cons t ts)
  obtain d1 ids1 where r: "releaseId t (d, ids) = (d1, ids1)"
    by (cases "releaseId t (d, ids)")
  then show ?case
    using Cons.IH [of d1 ids1] by (simp add: releaseTarget_releaseId)
qed

lemma forEach_releaseNode_ids:
  assumes graph: "\<And>k. graph k = (if k \<in> node_id ` set nodes then Some (G k) else None)"
    and "forEach (releaseNode nodes graph) (map (lookupNode nodes) C) (d, map (lookupNode nodes) ids)
         = Inr (d', next)"
  shows "set C \<subseteq> node_id ` set nodes \<and>
     (d', next) = map_prod id (map (lookupNode nodes))
        (fold releaseId (concat (map G C)) (d, ids))"
  using assms(2)
proof (induction C arbitrary: d ids)
  case Nil
  then show ?case by simp
next
  case (Cons k C)
  from Cons.prems obtain d1 nx1 where
    s: "releaseNode nodes graph (lookupNode nodes k) (d, map (lookupNode nodes) ids) = Inr (d1, nx1)"
    and r: "forEach (releaseNode nodes graph) (map (lookupNode nodes) C) (d1, nx1) = Inr (d', next)"
    by (auto split: sum.splits)
  from s obtain n where n: "lookupNode nodes k = Some n"
    by (auto simp: releaseNode_def split: option.splits)
  then have k: "node_id n = k" "k \<in> node_id ` set nodes"
    using lookupNode_Some [OF n] by auto
  obtain d2 ids2 where f: "fold releaseId (G k) (d, ids) = (d2, ids2)"
    by (cases "fold releaseId (G k) (d, ids)")
  from s n k have "(d1, nx1) = fold (releaseTarget nodes) (G k) (d, map (lookupNode nodes) ids)"
    by (simp add: releaseNode_def graph)
  with f have "d1 = d2" "nx1 = map (lookupNode nodes) ids2"
    by (simp_all add: fold_releaseTarget_releaseId)
  with Cons.IH [of d2 ids2] r f k show ?case by simp
qed

lemma releaseId_unchanged:
  "fold releaseId ts (d, ids) = (d', ids') \<Longrightarrow> t \<notin> set ts \<Longrightarrow> fmlookup d' t = fmlookup d t"
proof (induction ts arbitrary: d ids)
  case Nil
  then show ?case by simp
next
  case (Cons u ts)
  obtain d1 ids1 where r: "releaseId u (d, ids) = (d1, ids1)"
    by (cases "releaseId u (d, ids)")
  with Cons.prems have "fold releaseId ts (d1, ids1) = (d', ids')" "t \<notin> set ts" "t \<noteq> u"
    by auto
  moreover from r \<open>t \<noteq> u\<close> have "fmlookup d1 t = fmlookup d t"
    by (auto simp: releaseId_def Let_def)
  ultimately show ?case using Cons.IH by simp
qed

text \<open>
  When the counter of every identifier \<open>t\<close> of the list that is in \<open>K\<close> is \<open>a t\<close>
  plus the number of its occurrences in the list, and the others have no number for a
  counter, the loop leaves \<open>a t\<close> and releases exactly the identifiers in \<open>K\<close> with
  \<open>a t = 0\<close>, each once.
\<close>

lemma releaseId_Count:
  "fmlookup d t = Some (Count v) \<Longrightarrow>
   releaseId t (d, ids) = (fmupd t (Count (v - 1)) d, if v - 1 = 0 then ids @ [t] else ids)"
  by (simp add: releaseId_def lookupCounter_def decrement_def)

lemma releaseId_no_Count:
  "\<forall>v. fmlookup d t \<noteq> Some (Count v) \<Longrightarrow> releaseId t (d, ids) = (fmupd t NaN d, ids)"
  by (auto simp: releaseId_def lookupCounter_def decrement_def Let_def
      split: option.splits Counter.splits)

lemma releaseId_counts:
  "fold releaseId ts (d, ids) = (d', ids') \<Longrightarrow>
   \<forall>t \<in> set ts. if t \<in> K then fmlookup d t = Some (Count (int (a t + count_list ts t)))
                 else (\<forall>v. fmlookup d t \<noteq> Some (Count v)) \<Longrightarrow>
   (\<forall>t \<in> set ts. if t \<in> K then fmlookup d' t = Some (Count (int (a t)))
                  else (\<forall>v. fmlookup d' t \<noteq> Some (Count v))) \<and>
   set ids' = set ids \<union> {t \<in> set ts. t \<in> K \<and> a t = 0} \<and>
   (distinct ids \<and> set ids \<inter> set ts = {} \<longrightarrow> distinct ids')"
proof (induction ts arbitrary: d ids)
  case Nil
  then show ?case by simp
next
  case (Cons u ts)
  show ?case
  proof (cases "u \<in> K")
    case True
    let ?v = "int (a u + count_list (u # ts) u)"
    let ?d1 = "fmupd u (Count (?v - 1)) d"
    let ?ids1 = "if ?v - 1 = 0 then ids @ [u] else ids"
    from Cons.prems(2) True have du: "fmlookup d u = Some (Count ?v)" by simp
    then have r: "releaseId u (d, ids) = (?d1, ?ids1)"
      by (rule releaseId_Count)
    with Cons.prems(1) have f: "fold releaseId ts (?d1, ?ids1) = (d', ids')" by simp
    have v1: "?v - 1 = int (a u + count_list ts u)" by simp
    have "a u + count_list ts u = 0 \<longleftrightarrow> a u = 0 \<and> u \<notin> set ts"
      by (simp add: count_list_0_iff)
    then have zero: "?v - 1 = 0 \<longleftrightarrow> a u = 0 \<and> u \<notin> set ts"
      unfolding v1 by (simp only: of_nat_eq_0_iff)
    have pre: "\<forall>t \<in> set ts. if t \<in> K then fmlookup ?d1 t = Some (Count (int (a t + count_list ts t)))
                 else (\<forall>v. fmlookup ?d1 t \<noteq> Some (Count v))"
    proof
      fix t assume t: "t \<in> set ts"
      show "if t \<in> K then fmlookup ?d1 t = Some (Count (int (a t + count_list ts t)))
                 else (\<forall>v. fmlookup ?d1 t \<noteq> Some (Count v))"
      proof (cases "t = u")
        case True
        with \<open>u \<in> K\<close> v1 show ?thesis by simp
      next
        case False
        with Cons.prems(2) t show ?thesis by simp
      qed
    qed
    note IH = Cons.IH [OF f pre]
    have d'u: "fmlookup d' u = Some (Count (int (a u)))"
    proof (cases "u \<in> set ts")
      case True
      with IH \<open>u \<in> K\<close> show ?thesis by auto
    next
      case False
      from releaseId_unchanged [OF f False] v1 False show ?thesis by simp
    qed
    have ids: "set ids' = set ids \<union> {t \<in> set (u # ts). t \<in> K \<and> a t = 0}"
      using IH zero True by auto
    have dist: "distinct ids'" if "distinct ids" "set ids \<inter> set (u # ts) = {}"
    proof -
      from that zero have "distinct ?ids1 \<and> set ?ids1 \<inter> set ts = {}" by auto
      with IH show ?thesis by blast
    qed
    from IH d'u ids dist True show ?thesis by auto
  next
    case False
    let ?d1 = "fmupd u NaN d"
    from Cons.prems(2) False have "\<forall>v. fmlookup d u \<noteq> Some (Count v)" by simp
    then have r: "releaseId u (d, ids) = (?d1, ids)"
      by (rule releaseId_no_Count)
    with Cons.prems(1) have f: "fold releaseId ts (?d1, ids) = (d', ids')" by simp
    have pre: "\<forall>t \<in> set ts. if t \<in> K then fmlookup ?d1 t = Some (Count (int (a t + count_list ts t)))
                 else (\<forall>v. fmlookup ?d1 t \<noteq> Some (Count v))"
    proof
      fix t assume t: "t \<in> set ts"
      show "if t \<in> K then fmlookup ?d1 t = Some (Count (int (a t + count_list ts t)))
                 else (\<forall>v. fmlookup ?d1 t \<noteq> Some (Count v))"
      proof (cases "t = u")
        case True
        with \<open>u \<notin> K\<close> show ?thesis by simp
      next
        case False
        with Cons.prems(2) t show ?thesis by simp
      qed
    qed
    note IH = Cons.IH [OF f pre]
    have d'u: "\<forall>v. fmlookup d' u \<noteq> Some (Count v)"
    proof (cases "u \<in> set ts")
      case True
      with IH \<open>u \<notin> K\<close> show ?thesis by auto
    next
      case False
      from releaseId_unchanged [OF f False] show ?thesis by simp
    qed
    have ids: "set ids' = set ids \<union> {t \<in> set (u # ts). t \<in> K \<and> a t = 0}"
      using IH False by auto
    have dist: "distinct ids'" if "distinct ids" "set ids \<inter> set (u # ts) = {}"
      using IH that by auto
    from IH d'u ids dist False show ?thesis by auto
  qed
qed

text \<open>Counting the dependency edges into \<open>t\<close> whose source is still unprocessed.\<close>

lemma remaining_insert:
  "k \<notin> P \<Longrightarrow> remaining cs P t = remaining cs (insert k P) t + count_list (targetsOf cs k) t"
  by (induction cs rule: rev_induct) (auto simp: remaining_snoc targetsOf_snoc remaining_def targetsOf_def)

lemma remaining_level:
  "distinct C \<Longrightarrow> set C \<inter> P = {} \<Longrightarrow>
   remaining cs P t = remaining cs (P \<union> set C) t + count_list (concat (map (targetsOf cs) C)) t"
proof (induction C arbitrary: P)
  case Nil
  then show ?case by simp
next
  case (Cons k C)
  then have "k \<notin> P" "distinct C" "set C \<inter> insert k P = {}" by auto
  from remaining_insert [OF this(1), of cs t] Cons.IH [OF this(2,3)] show ?case by simp
qed

lemma remaining_mono: "P \<subseteq> Q \<Longrightarrow> remaining cs Q t \<le> remaining cs P t"
proof (induction cs rule: rev_induct)
  case Nil
  then show ?case by (simp add: remaining_def)
next
  case (snoc c cs)
  then show ?case by (auto simp: remaining_snoc)
qed

lemma remaining_zero_source:
  "remaining cs P (conn_to c) = 0 \<Longrightarrow> c \<in> set cs \<Longrightarrow> isDep c \<Longrightarrow> conn_from c \<in> P"
  by (auto simp: remaining_def filter_empty_conv)

lemma in_concat_nth: "v \<in> set (concat Ls) \<Longrightarrow> \<exists>i < length Ls. v \<in> set (Ls ! i)"
  by (auto simp: in_set_conv_nth [of _ Ls])

lemma ordered_snoc:
  assumes "ordered cs Ls"
    and "\<And>c. c \<in> set cs \<Longrightarrow> isDep c \<Longrightarrow> conn_to c \<in> set C \<Longrightarrow> conn_from c \<in> set (concat Ls)"
  shows "ordered cs (Ls @ [C])"
  unfolding ordered_def
proof (intro ballI impI allI)
  fix c j
  assume c: "c \<in> set cs" "isDep c" and j: "j < length (Ls @ [C])"
    and t: "conn_to c \<in> set ((Ls @ [C]) ! j)"
  show "\<exists>i<j. conn_from c \<in> set ((Ls @ [C]) ! i)"
  proof (cases "j < length Ls")
    case True
    with assms(1) c t obtain i where "i < j" "conn_from c \<in> set (Ls ! i)"
      by (auto simp: ordered_def nth_append)
    with True show ?thesis by (auto simp: nth_append intro!: exI [of _ i])
  next
    case False
    with j have jl: "j = length Ls" by simp
    with t have "conn_to c \<in> set C" by simp
    from in_concat_nth [OF assms(2) [OF c this]]
    obtain i where "i < length Ls" "conn_from c \<in> set (Ls ! i)" by blast
    with jl show ?thesis by (auto simp: nth_append intro!: exI [of _ i])
  qed
qed

lemma ordered_butlast: "ordered cs (Ls @ [C]) \<Longrightarrow> ordered cs Ls"
  unfolding ordered_def
proof (intro ballI impI allI)
  fix c j
  assume o: "\<forall>c\<in>set cs. isDep c \<longrightarrow>
         (\<forall>j<length (Ls @ [C]). conn_to c \<in> set ((Ls @ [C]) ! j) \<longrightarrow>
            (\<exists>i<j. conn_from c \<in> set ((Ls @ [C]) ! i)))"
    and c: "c \<in> set cs" "isDep c" and j: "j < length Ls" and t: "conn_to c \<in> set (Ls ! j)"
  from j t have "j < length (Ls @ [C])" "conn_to c \<in> set ((Ls @ [C]) ! j)"
    by (simp_all add: nth_append)
  with o c obtain i where "i < j" "conn_from c \<in> set ((Ls @ [C]) ! i)"
    by blast
  with j show "\<exists>i<j. conn_from c \<in> set (Ls ! i)"
    by (auto simp: nth_append intro!: exI [of _ i])
qed

lemma targetsOf_target: "t \<in> set (targetsOf cs k) \<Longrightarrow> t \<in> conn_to ` {c \<in> set cs. isDep c}"
  by (auto simp: targetsOf_def)

lemma levelInv_step:
  assumes inv: "levelInv nodes cs d C Ls"
    and sub: "set C \<subseteq> node_id ` set nodes"
    and f: "fold releaseId (concat (map (targetsOf cs) C)) (d, []) = (d', C')"
  shows "levelInv nodes cs d' C' (Ls @ [C])"
proof -
  let ?P = "set (concat Ls)" and ?P' = "set (concat (Ls @ [C]))"
  let ?ts = "concat (map (targetsOf cs) C)"
  let ?K = "counted nodes cs"
  from inv have dist: "distinct (concat Ls)" "distinct C" "set C \<inter> ?P = {}"
    and nodesP: "?P \<subseteq> node_id ` set nodes"
    and deg: "\<And>t. t \<in> ?K \<Longrightarrow> fmlookup d t = Some (Count (int (remaining cs ?P t)))"
    and nodeg: "\<And>t v. t \<notin> ?K \<Longrightarrow> fmlookup d t \<noteq> Some (Count v)"
    and zero: "\<And>n. n \<in> set C \<union> ?P \<Longrightarrow> remaining cs ?P n = 0"
    and full: "\<And>n. n \<in> node_id ` set nodes \<Longrightarrow> remaining cs ?P n = 0 \<Longrightarrow> n \<in> set C \<union> ?P"
    and ord: "ordered cs (Ls @ [C])"
    by (auto simp: levelInv_def)
  have P': "?P' = ?P \<union> set C" by simp
  have split: "remaining cs ?P t = remaining cs ?P' t + count_list ?ts t" for t
    unfolding P' by (rule remaining_level [OF dist(2,3)])
  have pre: "\<forall>t \<in> set ?ts. if t \<in> ?K
        then fmlookup d t = Some (Count (int (remaining cs ?P' t + count_list ?ts t)))
        else (\<forall>v. fmlookup d t \<noteq> Some (Count v))"
    using deg nodeg split by simp
  from releaseId_counts [OF f pre]
  have r1: "\<And>t. t \<in> set ?ts \<Longrightarrow> t \<in> ?K \<Longrightarrow> fmlookup d' t = Some (Count (int (remaining cs ?P' t)))"
    and r1': "\<And>t v. t \<in> set ?ts \<Longrightarrow> t \<notin> ?K \<Longrightarrow> fmlookup d' t \<noteq> Some (Count v)"
    and r2: "set C' = {t \<in> set ?ts. t \<in> ?K \<and> remaining cs ?P' t = 0}"
    and r3: "distinct C'"
    by (auto split: if_splits)
  have fresh: "t \<notin> set C \<union> ?P" if "t \<in> set C'" for t
  proof
    assume "t \<in> set C \<union> ?P"
    then have "remaining cs ?P t = 0" by (rule zero)
    moreover from that r2 have "0 < count_list ?ts t"
      by (simp add: count_list_0_iff zero_less_iff_neq_zero)
    ultimately show False using split [of t] by simp
  qed
  have i1: "distinct (concat (Ls @ [C]) @ C')"
    using dist r3 fresh by auto
  have i2: "?P' \<subseteq> node_id ` set nodes"
    using nodesP sub by simp
  have i3: "fmlookup d' t = Some (Count (int (remaining cs ?P' t)))" if "t \<in> ?K" for t
  proof (cases "t \<in> set ?ts")
    case True
    then show ?thesis using that by (rule r1)
  next
    case False
    from releaseId_unchanged [OF f False] deg [OF that] split [of t] False
    show ?thesis by simp
  qed
  have i3': "fmlookup d' t \<noteq> Some (Count v)" if "t \<notin> ?K" for t v
  proof (cases "t \<in> set ?ts")
    case True
    then show ?thesis using that by (rule r1')
  next
    case False
    from releaseId_unchanged [OF f False] nodeg [OF that] show ?thesis by simp
  qed
  have i4: "remaining cs ?P' n = 0" if "n \<in> set C' \<union> ?P'" for n
  proof (cases "n \<in> set C'")
    case True
    with r2 show ?thesis by simp
  next
    case False
    with that have "n \<in> set C \<union> ?P" by auto
    then have "remaining cs ?P n = 0" by (rule zero)
    moreover have "remaining cs ?P' n \<le> remaining cs ?P n"
      by (rule remaining_mono) auto
    ultimately show ?thesis by simp
  qed
  have i4': "n \<in> set C' \<union> ?P'" if n: "n \<in> node_id ` set nodes" and z: "remaining cs ?P' n = 0" for n
  proof (cases "remaining cs ?P n = 0")
    case True
    from full [OF n True] show ?thesis by auto
  next
    case False
    with split [of n] z have "count_list ?ts n \<noteq> 0" by simp
    then have "n \<in> set ?ts" by (simp add: count_list_0_iff)
    moreover from n have "n \<in> ?K" by (simp add: counted_def)
    ultimately show ?thesis using r2 z by simp
  qed
  have i5: "ordered cs ((Ls @ [C]) @ [C'])"
  proof (rule ordered_snoc [OF ord])
    fix c
    assume "c \<in> set cs" "isDep c" "conn_to c \<in> set C'"
    with r2 have "remaining cs ?P' (conn_to c) = 0" by simp
    then show "conn_from c \<in> ?P'"
      by (rule remaining_zero_source) fact+
  qed
  show ?thesis
    unfolding levelInv_def using i1 i2 i3 i3' i4 i4' i5 by blast
qed

lemma levelLoop_layered:
  assumes graph: "\<And>k. graph k = (if k \<in> node_id ` set nodes then Some (targetsOf cs k) else None)"
  shows "levelInv nodes cs d C Ls \<Longrightarrow>
     levelLoop nodes graph d (map (lookupNode nodes) C) (map (map (lookupNode nodes)) Ls)
       = Inr levels' \<Longrightarrow>
     layered nodes cs levels'"
proof (induction "2 * card (positives d) + (if C = [] then 0 else 1 :: nat)"
    arbitrary: d C Ls rule: less_induct)
  case less
  show ?case
  proof (cases "C = []")
    case True
    with less.prems(2) have "levels' = map (map (lookupNode nodes)) Ls"
      by (simp add: levelLoop.simps)
    moreover from less.prems(1) have "ordered cs Ls" "distinct (concat Ls)"
      "set (concat Ls) \<subseteq> node_id ` set nodes"
      by (auto simp: levelInv_def dest: ordered_butlast)
    moreover from less.prems(1) True have
      "\<forall>n \<in> node_id ` set nodes.
          n \<in> set (concat Ls) \<longleftrightarrow> remaining cs (set (concat Ls)) n = 0"
      unfolding levelInv_def by auto
    ultimately show ?thesis unfolding layered_def by blast
  next
    case False
    with less.prems(2) obtain d' nx where
      s: "forEach (releaseNode nodes graph) (map (lookupNode nodes) C) (d, []) = Inr (d', nx)"
      and r: "levelLoop nodes graph d' nx
                (map (map (lookupNode nodes)) Ls @ [map (lookupNode nodes) C]) = Inr levels'"
      by (auto simp: levelLoop.simps [of nodes graph d "map (lookupNode nodes) C"]
          split: sum.splits)
    obtain d2 C' where f: "fold releaseId (concat (map (targetsOf cs) C)) (d, []) = (d2, C')"
      by (cases "fold releaseId (concat (map (targetsOf cs) C)) (d, [])")
    from forEach_releaseNode_ids [of graph nodes "targetsOf cs" C d "[]" d' nx] graph s f
    have sub: "set C \<subseteq> node_id ` set nodes" and d': "d' = d2"
      and nx: "nx = map (lookupNode nodes) C'"
      by auto
    have inv': "levelInv nodes cs d2 C' (Ls @ [C])"
      by (rule levelInv_step [OF less.prems(1) sub f])
    from forEach_releaseNode_measure [OF s] have "card (positives d2) + length C' \<le> card (positives d)"
      by (simp add: d' nx)
    then have m: "2 * card (positives d2) + (if C' = [] then 0 else 1)
        < 2 * card (positives d) + (if C = [] then 0 else 1)"
      using False by (cases C') auto
    from r have "levelLoop nodes graph d2 (map (lookupNode nodes) C')
        (map (map (lookupNode nodes)) (Ls @ [C])) = Inr levels'"
      by (simp add: d' nx)
    from less.hyps [OF m inv' this] show ?thesis .
  qed
qed

text \<open>Placing the levels: every identifier of level \<open>j\<close> gets the ordinate of level \<open>j\<close>.\<close>

lemma placeNode_apply:
  "placeNode s sx cy j (i, Some n) m =
     Inr (m(node_id n \<mapsto> \<lparr>posX = sx + real i * s, posY = cy + real j * s\<rparr>))"
  by (simp add: placeNode_def)

lemma placeLevel_apply:
  "placeLevel s cx cy (j, level) m =
     forEach (placeNode s (cx - real (length level) * s / 2) cy j) (enumerate 0 level) m"
  by (simp add: placeLevel_def Let_def)

lemma forEach_placeNode:
  "set C \<subseteq> node_id ` set nodes \<Longrightarrow>
   \<exists>m'. forEach (placeNode s sx cy j) (enumerate i0 (map (lookupNode nodes) C)) m = Inr m' \<and>
        (\<forall>k. k \<notin> set C \<longrightarrow> m' k = m k) \<and>
        (\<forall>k \<in> set C. \<exists>p. m' k = Some p \<and> posY p = cy + real j * s)"
proof (induction C arbitrary: i0 m)
  case Nil
  then show ?case by simp
next
  case (Cons k C)
  then obtain n where n: "lookupNode nodes k = Some n"
    by (cases "lookupNode nodes k") (auto simp: lookupNode_None)
  then have k: "node_id n = k" using lookupNode_Some by blast
  let ?m1 = "m(k \<mapsto> \<lparr>posX = sx + real i0 * s, posY = cy + real j * s\<rparr>)"
  from Cons.prems have "set C \<subseteq> node_id ` set nodes" by simp
  from Cons.IH [OF this, of "Suc i0" ?m1] obtain m' where
    m': "forEach (placeNode s sx cy j) (enumerate (Suc i0) (map (lookupNode nodes) C)) ?m1 = Inr m'"
      "\<forall>k'. k' \<notin> set C \<longrightarrow> m' k' = ?m1 k'"
      "\<forall>k' \<in> set C. \<exists>p. m' k' = Some p \<and> posY p = cy + real j * s"
    by blast
  have "forEach (placeNode s sx cy j) (enumerate i0 (map (lookupNode nodes) (k # C))) m = Inr m'"
    using m'(1) n k by (simp add: placeNode_apply)
  moreover have "\<forall>k'. k' \<notin> set (k # C) \<longrightarrow> m' k' = m k'"
    using m'(2) by simp
  moreover have "\<forall>k' \<in> set (k # C). \<exists>p. m' k' = Some p \<and> posY p = cy + real j * s"
  proof
    fix k' assume "k' \<in> set (k # C)"
    show "\<exists>p. m' k' = Some p \<and> posY p = cy + real j * s"
    proof (cases "k' \<in> set C")
      case True
      with m'(3) show ?thesis by blast
    next
      case False
      with \<open>k' \<in> set (k # C)\<close> have "k' = k" by simp
      with False m'(2) show ?thesis by simp
    qed
  qed
  ultimately show ?case by blast
qed

lemma forEach_placeLevel:
  "set (concat Ls) \<subseteq> node_id ` set nodes \<Longrightarrow> distinct (concat Ls) \<Longrightarrow>
   \<exists>m'. forEach (placeLevel s cx cy) (enumerate j0 (map (map (lookupNode nodes)) Ls)) m = Inr m' \<and>
        (\<forall>k. k \<notin> set (concat Ls) \<longrightarrow> m' k = m k) \<and>
        (\<forall>j < length Ls. \<forall>k \<in> set (Ls ! j).
           \<exists>p. m' k = Some p \<and> posY p = cy + real (j0 + j) * s)"
proof (induction Ls arbitrary: j0 m)
  case Nil
  then show ?case by simp
next
  case (Cons C Ls)
  from Cons.prems have C: "set C \<subseteq> node_id ` set nodes"
    and Ls: "set (concat Ls) \<subseteq> node_id ` set nodes" "distinct (concat Ls)"
    and disj: "set C \<inter> set (concat Ls) = {}"
    by auto
  from forEach_placeNode [OF C, of s "cx - real (length (map (lookupNode nodes) C)) * s / 2" cy j0 0 m]
  obtain m1 where
    m1: "placeLevel s cx cy (j0, map (lookupNode nodes) C) m = Inr m1"
      "\<forall>k. k \<notin> set C \<longrightarrow> m1 k = m k"
      "\<forall>k \<in> set C. \<exists>p. m1 k = Some p \<and> posY p = cy + real j0 * s"
    unfolding placeLevel_apply by blast
  from Cons.IH [OF Ls, of "Suc j0" m1] obtain m' where
    m': "forEach (placeLevel s cx cy) (enumerate (Suc j0) (map (map (lookupNode nodes)) Ls)) m1
           = Inr m'"
      "\<forall>k. k \<notin> set (concat Ls) \<longrightarrow> m' k = m1 k"
      "\<forall>j < length Ls. \<forall>k \<in> set (Ls ! j).
           \<exists>p. m' k = Some p \<and> posY p = cy + real (Suc j0 + j) * s"
    by blast
  have "forEach (placeLevel s cx cy) (enumerate j0 (map (map (lookupNode nodes)) (C # Ls))) m
          = Inr m'"
    using m1(1) m'(1) by simp
  moreover have "\<forall>k. k \<notin> set (concat (C # Ls)) \<longrightarrow> m' k = m k"
    using m1(2) m'(2) by simp
  moreover have "\<forall>j < length (C # Ls). \<forall>k \<in> set ((C # Ls) ! j).
           \<exists>p. m' k = Some p \<and> posY p = cy + real (j0 + j) * s"
  proof (intro allI impI ballI)
    fix j k assume j: "j < length (C # Ls)" and k: "k \<in> set ((C # Ls) ! j)"
    show "\<exists>p. m' k = Some p \<and> posY p = cy + real (j0 + j) * s"
    proof (cases j)
      case 0
      with k have kC: "k \<in> set C" by simp
      with disj have "k \<notin> set (concat Ls)" by blast
      with m'(2) have "m' k = m1 k" by simp
      with m1(3) kC 0 show ?thesis by simp
    next
      case (Suc j')
      with j k have "j' < length Ls" "k \<in> set (Ls ! j')" by simp_all
      with m'(3) Suc show ?thesis by simp
    qed
  qed
  ultimately show ?case by blast
qed

lemma levelInv_initial:
  assumes b: "buildGraph nodes cs = Inr (graph, d)"
    and dist: "distinct (map node_id nodes)"
  shows "levelInv nodes cs d
     (map node_id (filter (\<lambda>node. lookupCounter d (node_id node) = Some (Count 0)) nodes)) []"
proof -
  let ?C = "map node_id (filter (\<lambda>node. lookupCounter d (node_id node) = Some (Count 0)) nodes)"
  note t = buildGraph_tables [OF b]
  have deg: "fmlookup d t = Some (Count (int (remaining cs {} t)))" if "t \<in> counted nodes cs" for t
    using t that by simp
  have nodeg: "fmlookup d t \<noteq> Some (Count v)" if "t \<notin> counted nodes cs" for t v
    using t that by simp
  have node: "lookupCounter d n = Some (Count (int (remaining cs {} n)))"
    if "n \<in> node_id ` set nodes" for n
    using deg [of n] that by (simp add: lookupCounter_def counted_def)
  have zero: "remaining cs {} n = 0" if "n \<in> set ?C" for n
    using that node [of n] by auto
  have full: "n \<in> set ?C" if "n \<in> node_id ` set nodes" "remaining cs {} n = 0" for n
    using that node [of n] by auto
  have "distinct ?C"
    using dist by (rule distinct_map_filter)
  moreover have "ordered cs ([] @ [?C])"
  proof (rule ordered_snoc)
    show "ordered cs []" by (simp add: ordered_def)
  next
    fix c assume "c \<in> set cs" "isDep c" "conn_to c \<in> set ?C"
    from remaining_zero_source [OF zero [OF this(3)] this(1,2)]
    show "conn_from c \<in> set (concat [])" by simp
  qed
  ultimately show ?thesis
    using deg nodeg zero full by (simp add: levelInv_def)
qed

lemma hierarchicalLayout_layers:
  assumes dist: "distinct (map node_id nodes)"
    and h: "hierarchicalLayout nodes cs options = Inr positions"
  shows "\<exists>Ls. set (concat Ls) \<subseteq> node_id ` set nodes \<and> distinct (concat Ls) \<and> ordered cs Ls \<and>
     dom positions = set (concat Ls) \<and>
     (\<forall>j < length Ls. \<forall>k \<in> set (Ls ! j). \<exists>p. positions k = Some p \<and>
        posY p = or_default (centerY options) 0 + real j * or_default (spacing options) 200) \<and>
     (\<forall>n \<in> node_id ` set nodes.
        n \<in> set (concat Ls) \<longleftrightarrow> remaining cs (set (concat Ls)) n = 0) \<and>
     (\<forall>c \<in> set cs. isDep c \<longrightarrow> conn_from c \<in> node_id ` set nodes)"
proof -
  from h obtain graph d where b: "buildGraph nodes cs = Inr (graph, d)"
    by (auto simp: hierarchicalLayout_def Let_def split: sum.splits)
  let ?C = "map node_id (filter (\<lambda>node. lookupCounter d (node_id node) = Some (Count 0)) nodes)"
  have cur: "map Some (filter (\<lambda>node. lookupCounter d (node_id node) = Some (Count 0)) nodes)
      = map (lookupNode nodes) ?C"
    using lookupNode_distinct [OF dist] by simp
  from h b cur obtain levels where
    l: "levelLoop nodes graph d (map (lookupNode nodes) ?C) [] = Inr levels"
    and p: "forEach (placeLevel (or_default (spacing options) 200)
                (or_default (centerX options) 0) (or_default (centerY options) 0))
              (enumerate 0 levels) Map.empty = Inr positions"
    by (auto simp: hierarchicalLayout_def Let_def split: sum.splits)
  have src: "\<forall>c \<in> set cs. isDep c \<longrightarrow> conn_from c \<in> node_id ` set nodes"
    using buildGraph_tables [OF b] by blast
  have "layered nodes cs levels"
  proof (rule levelLoop_layered [where Ls = "[]" and C = ?C and d = d and graph = graph])
    show "graph k = (if k \<in> node_id ` set nodes then Some (targetsOf cs k) else None)" for k
      using buildGraph_tables [OF b] by simp
    show "levelInv nodes cs d ?C []" by (rule levelInv_initial [OF b dist])
    show "levelLoop nodes graph d (map (lookupNode nodes) ?C) (map (map (lookupNode nodes)) [])
        = Inr levels"
      using l by simp
  qed
  then obtain Ls where Ls: "levels = map (map (lookupNode nodes)) Ls"
    "set (concat Ls) \<subseteq> node_id ` set nodes" "distinct (concat Ls)" "ordered cs Ls"
    "\<forall>n \<in> node_id ` set nodes.
        n \<in> set (concat Ls) \<longleftrightarrow> remaining cs (set (concat Ls)) n = 0"
    unfolding layered_def by blast
  from forEach_placeLevel [OF Ls(2,3), of "or_default (spacing options) 200"
      "or_default (centerX options) 0" "or_default (centerY options) 0" 0 Map.empty]
    p Ls(1)
  have out: "\<forall>k. k \<notin> set (concat Ls) \<longrightarrow> positions k = None"
    and lev: "\<forall>j < length Ls. \<forall>k \<in> set (Ls ! j). \<exists>p. positions k = Some p \<and>
        posY p = or_default (centerY options) 0 + real j * or_default (spacing options) 200"
    by auto
  have "dom positions = set (concat Ls)"
  proof
    show "dom positions \<subseteq> set (concat Ls)" using out by auto
    show "set (concat Ls) \<subseteq> dom positions"
    proof
      fix k assume "k \<in> set (concat Ls)"
      from in_concat_nth [OF this] lev show "k \<in> dom positions" by blast
    qed
  qed
  with Ls lev src show ?thesis by blast
qed

text \<open>
  Claim C4. Hierarchical layout of nodes with distinct identifiers, with a positive or
  omitted spacing: for every dependency edge whose two endpoints have a position in the
  returned mapping, the target's ordinate is strictly greater than the source's.
\<close>

theorem hierarchical_dependency_below:
  assumes "algorithm options = hierarchical"
    and "distinct (map node_id (Object_values nodes))"
    and "case spacing options of None \<Rightarrow> True | Some s \<Rightarrow> 0 < s"
    and "applyLayout nodes connections options = Inr positions"
    and "c \<in> set connections" and "conn_type c = dependency"
    and "positions (conn_from c) = Some pf" and "positions (conn_to c) = Some pt"
  shows "posY pf < posY pt"
proof -
  let ?s = "or_default (spacing options) 200" and ?cy = "or_default (centerY options) 0"
  have s: "0 < ?s"
    using assms(3) by (auto simp: or_default_def split: option.splits)
  have "Object_values nodes \<noteq> []"
  proof
    assume "Object_values nodes = []"
    with assms(4) have "positions = Map.empty" by (simp add: applyLayout_def)
    with assms(7) show False by simp
  qed
  with assms(1,4) have "hierarchicalLayout (Object_values nodes) connections options = Inr positions"
    by (simp add: applyLayout_def Let_def)
  from hierarchicalLayout_layers [OF assms(2) this] obtain Ls where
    ord: "ordered connections Ls" and dom: "dom positions = set (concat Ls)"
    and levs: "\<forall>j < length Ls. \<forall>k \<in> set (Ls ! j).
        \<exists>p. positions k = Some p \<and> posY p = ?cy + real j * ?s"
    by (elim exE conjE)
  from levs have lev: "\<exists>p. positions k = Some p \<and> posY p = ?cy + real j * ?s"
    if "j < length Ls" "k \<in> set (Ls ! j)" for j k
    using that by blast
  from assms(8) dom have "conn_to c \<in> set (concat Ls)" by blast
  from in_concat_nth [OF this] obtain j where j: "j < length Ls" "conn_to c \<in> set (Ls ! j)"
    by blast
  with ord assms(5,6) obtain i where i: "i < j" "conn_from c \<in> set (Ls ! i)"
    by (auto simp: ordered_def isDep_def)
  from lev [OF j] assms(8) have pt: "posY pt = ?cy + real j * ?s" by simp
  from i j have "i < length Ls" by simp
  from lev [OF this i(2)] assms(7) have pf: "posY pf = ?cy + real i * ?s" by simp
  from i(1) s have "real i * ?s < real j * ?s" by simp
  with pt pf show ?thesis by simp
qed

theorem hierarchical_dependency_below_witness:
  "applyLayout [(''A'', nodeAt ''A'' 5 5), (''B'', nodeAt ''B'' 7 7), (''C'', nodeAt ''C'' 9 9)]
      [edge ''A'' ''B'' dependency, edge ''B'' ''C'' related] (noOptions hierarchical)
     = Inr [''A'' \<mapsto> \<lparr>posX = -200, posY = 0\<rparr>, ''C'' \<mapsto> \<lparr>posX = 0, posY = 0\<rparr>,
            ''B'' \<mapsto> \<lparr>posX = -100, posY = 200\<rparr>] \<and>
   posY \<lparr>posX = -200, posY = 0\<rparr> < posY \<lparr>posX = -100, posY = (200::real)\<rparr>"
proof -
  define ns where "ns = [(''A'', nodeAt ''A'' 5 5), (''B'', nodeAt ''B'' 7 7), (''C'', nodeAt ''C'' 9 9)]"
  define cs where "cs = [edge ''A'' ''B'' dependency, edge ''B'' ''C'' related]"
  define ps :: Positions where "ps = [''A'' \<mapsto> \<lparr>posX = -200, posY = 0\<rparr>,
     ''C'' \<mapsto> \<lparr>posX = 0, posY = 0\<rparr>, ''B'' \<mapsto> \<lparr>posX = -100, posY = 200\<rparr>]"
  have a: "applyLayout ns cs (noOptions hierarchical) = Inr ps"
    unfolding ns_def cs_def ps_def by (simp add: hierarchical_defs example_defs)
  have h: "algorithm (noOptions hierarchical) = hierarchical"
    "distinct (map node_id (Object_values ns))"
    "case spacing (noOptions hierarchical) of None \<Rightarrow> True | Some s \<Rightarrow> 0 < s"
    "edge ''A'' ''B'' dependency \<in> set cs" "conn_type (edge ''A'' ''B'' dependency) = dependency"
    "ps (conn_from (edge ''A'' ''B'' dependency)) = Some \<lparr>posX = -200, posY = 0\<rparr>"
    "ps (conn_to (edge ''A'' ''B'' dependency)) = Some \<lparr>posX = -100, posY = 200\<rparr>"
    by (simp_all add: ns_def cs_def ps_def example_defs)
  from hierarchical_dependency_below [OF h(1,2,3) a h(4,5,6,7)] a
  show ?thesis unfolding ns_def cs_def ps_def by (rule conjI [rotated])
qed

subsection \<open>What hierarchical layout places\<close>

text \<open>
  Hierarchical layout places the nodes that no dependency cycle leads to: a node on
  such a cycle never gets in-degree 0, and neither does a node that depends on it,
  directly or not.
\<close>

lemma dependencies_iff:
  "(s, t) \<in> dependencies cs \<longleftrightarrow> (\<exists>c \<in> set cs. isDep c \<and> conn_from c = s \<and> conn_to c = t)"
  by (auto simp: dependencies_def isDep_def)

lemma remaining_zero_iff:
  "remaining cs P t = 0 \<longleftrightarrow> (\<forall>s. (s, t) \<in> dependencies cs \<longrightarrow> s \<in> P)"
  by (auto simp: remaining_def filter_empty_conv dependencies_iff)

lemma ordered_trancl:
  assumes "ordered cs Ls" and "(s, t) \<in> (dependencies cs)\<^sup>+"
  shows "\<forall>j < length Ls. t \<in> set (Ls ! j) \<longrightarrow> (\<exists>i < j. s \<in> set (Ls ! i))"
  using assms(2)
proof (induction rule: trancl_induct)
  case (base y)
  then obtain c where "c \<in> set cs" "isDep c" "conn_from c = s" "conn_to c = y"
    by (auto simp: dependencies_iff)
  with assms(1) show ?case unfolding ordered_def by blast
next
  case (step y z)
  from step(2) obtain c where c: "c \<in> set cs" "isDep c" "conn_from c = y" "conn_to c = z"
    by (auto simp: dependencies_iff)
  show ?case
  proof (intro allI impI)
    fix j assume j: "j < length Ls" "z \<in> set (Ls ! j)"
    with assms(1) c obtain i where i: "i < j" "y \<in> set (Ls ! i)"
      unfolding ordered_def by blast
    from i(1) j(1) have "i < length Ls" by simp
    with step.IH i(2) obtain i' where "i' < i" "s \<in> set (Ls ! i')" by blast
    with i(1) show "\<exists>i < j. s \<in> set (Ls ! i)" by (auto intro!: exI [of _ i'])
  qed
qed

lemma placed_no_cycle:
  assumes "ordered cs Ls" and "n \<in> set (concat Ls)" and "(m, n) \<in> (dependencies cs)\<^sup>*"
  shows "(m, m) \<notin> (dependencies cs)\<^sup>+"
proof
  assume cyc: "(m, m) \<in> (dependencies cs)\<^sup>+"
  define Q where "Q j \<longleftrightarrow> j < length Ls \<and> m \<in> set (Ls ! j)" for j
  from in_concat_nth [OF assms(2)] obtain j0 where j0: "j0 < length Ls" "n \<in> set (Ls ! j0)"
    by blast
  have "\<exists>j. Q j"
  proof (cases "m = n")
    case True
    with j0 show ?thesis by (auto simp: Q_def)
  next
    case False
    with assms(3) have "(m, n) \<in> (dependencies cs)\<^sup>+" by (auto dest: rtranclD)
    from ordered_trancl [OF assms(1) this] j0 obtain i where "i < j0" "m \<in> set (Ls ! i)"
      by blast
    with j0(1) show ?thesis by (auto simp: Q_def intro!: exI [of _ i])
  qed
  then obtain j where j: "Q j" "\<forall>i < j. \<not> Q i"
    using exists_least_iff [of Q] by auto
  from ordered_trancl [OF assms(1) cyc] j(1) obtain i where "i < j" "m \<in> set (Ls ! i)"
    by (auto simp: Q_def)
  with j show False by (auto simp: Q_def)
qed

lemma unplaced_cycle:
  fixes D :: "('a \<times> 'a) set"
  assumes "finite N" and "Domain D \<subseteq> N"
    and "\<forall>u \<in> N. u \<in> P \<longleftrightarrow> (\<forall>s. (s, u) \<in> D \<longrightarrow> s \<in> P)"
    and "n \<in> N" and "n \<notin> P"
  shows "\<exists>m. (m, n) \<in> D\<^sup>* \<and> (m, m) \<in> D\<^sup>+"
proof -
  define A where "A = {m \<in> N - P. (m, n) \<in> D\<^sup>*}"
  define R where "R = {(v, u). (v, u) \<in> D \<and> v \<in> A \<and> u \<in> A}"
  have "finite A" using assms(1) by (simp add: A_def)
  moreover have "R \<subseteq> A \<times> A" by (auto simp: R_def)
  ultimately have fR: "finite R" by (meson finite_SigmaI finite_subset)
  have nA: "n \<in> A" using assms(4,5) by (simp add: A_def)
  have pred: "\<exists>v. v \<in> A \<and> (v, u) \<in> R" if "u \<in> A" for u
  proof -
    from that have u: "u \<in> N" "u \<notin> P" "(u, n) \<in> D\<^sup>*" by (simp_all add: A_def)
    with assms(3) obtain s where s: "(s, u) \<in> D" "s \<notin> P" by blast
    with assms(2) have "s \<in> N" by blast
    moreover from s(1) u(3) have "(s, n) \<in> D\<^sup>*" by (rule converse_rtrancl_into_rtrancl)
    ultimately have "s \<in> A" using s(2) by (simp add: A_def)
    with s(1) that show ?thesis by (auto simp: R_def)
  qed
  have "\<not> acyclic R"
  proof
    assume "acyclic R"
    with fR have "wf R" by (rule finite_acyclic_wf)
    from wfE_min [OF this nA] obtain z where "z \<in> A" "\<And>y. (y, z) \<in> R \<Longrightarrow> y \<notin> A"
      by blast
    with pred [of z] show False by blast
  qed
  then obtain m where m: "(m, m) \<in> R\<^sup>+" by (auto simp: acyclic_def)
  have "R \<subseteq> D" by (auto simp: R_def)
  with m have "(m, m) \<in> D\<^sup>+" by (rule trancl_mono)
  moreover from m obtain z where "(m, z) \<in> R" by (auto dest: tranclD)
  then have "(m, n) \<in> D\<^sup>*" by (simp add: R_def A_def)
  ultimately show ?thesis by blast
qed

lemma hierarchicalLayout_dom:
  assumes "distinct (map node_id nodes)"
    and "hierarchicalLayout nodes cs options = Inr positions"
  shows "dom positions =
     {n \<in> node_id ` set nodes.
        \<forall>m. (m, n) \<in> (dependencies cs)\<^sup>* \<longrightarrow> (m, m) \<notin> (dependencies cs)\<^sup>+}"
proof -
  from hierarchicalLayout_layers [OF assms] obtain Ls where
    sub: "set (concat Ls) \<subseteq> node_id ` set nodes" and "distinct (concat Ls)"
    and ord: "ordered cs Ls" and dom: "dom positions = set (concat Ls)"
    and "\<forall>j < length Ls. \<forall>k \<in> set (Ls ! j). \<exists>p. positions k = Some p \<and>
        posY p = or_default (centerY options) 0 + real j * or_default (spacing options) 200"
    and full: "\<forall>n \<in> node_id ` set nodes.
        n \<in> set (concat Ls) \<longleftrightarrow> remaining cs (set (concat Ls)) n = 0"
    and src: "\<forall>c \<in> set cs. isDep c \<longrightarrow> conn_from c \<in> node_id ` set nodes"
    by (elim exE conjE)
  let ?D = "dependencies cs" and ?N = "node_id ` set nodes" and ?P = "set (concat Ls)"
  have "?P = {n \<in> ?N. \<forall>m. (m, n) \<in> ?D\<^sup>* \<longrightarrow> (m, m) \<notin> ?D\<^sup>+}"
  proof (intro equalityI subsetI)
    fix n assume "n \<in> ?P"
    with sub placed_no_cycle [OF ord this]
    show "n \<in> {n \<in> ?N. \<forall>m. (m, n) \<in> ?D\<^sup>* \<longrightarrow> (m, m) \<notin> ?D\<^sup>+}" by blast
  next
    fix n assume n: "n \<in> {n \<in> ?N. \<forall>m. (m, n) \<in> ?D\<^sup>* \<longrightarrow> (m, m) \<notin> ?D\<^sup>+}"
    show "n \<in> ?P"
    proof (rule ccontr)
      assume "n \<notin> ?P"
      moreover have "finite ?N" by simp
      moreover have "Domain ?D \<subseteq> ?N" using src by (auto simp: dependencies_iff)
      moreover have "\<forall>u \<in> ?N. u \<in> ?P \<longleftrightarrow> (\<forall>s. (s, u) \<in> ?D \<longrightarrow> s \<in> ?P)"
        using full by (simp add: remaining_zero_iff)
      moreover from n have "n \<in> ?N" by simp
      ultimately have "\<exists>m. (m, n) \<in> ?D\<^sup>* \<and> (m, m) \<in> ?D\<^sup>+"
        using unplaced_cycle [of ?N ?D ?P n] by blast
      with n show False by blast
    qed
  qed
  with dom show ?thesis by simp
qed

text \<open>
  When the two ends of every dependency edge are nodes, nothing throws and a mapping is
  returned.
\<close>

lemma buildGraph_returns:
  "\<forall>c \<in> set cs. isDep c \<longrightarrow> conn_from c \<in> node_id ` set nodes \<Longrightarrow>
   \<exists>graph inDegree. buildGraph nodes cs = Inr (graph, inDegree)"
proof (induction cs rule: rev_induct)
  case Nil
  show ?case by (cases "fold initNode nodes (Map.empty, fmempty)") (simp add: buildGraph_def)
next
  case (snoc c cs)
  then obtain g d where b: "buildGraph nodes cs = Inr (g, d)" by auto
  have "\<exists>s. addDependency c (g, d) = Inr s"
  proof (cases "isDep c")
    case False
    then show ?thesis by (simp add: addDependency_def isDep_def)
  next
    case True
    with snoc.prems have "conn_from c \<in> node_id ` set nodes" by simp
    with buildGraph_tables [OF b] have "g (conn_from c) = Some (targetsOf cs (conn_from c))"
      by simp
    then show ?thesis by (simp add: addDependency_def)
  qed
  with b show ?case by (auto simp: buildGraph_def forEach_append)
qed

lemma forEach_releaseNode_returns:
  assumes graph: "\<And>k. graph k = (if k \<in> node_id ` set nodes then Some (G k) else None)"
  shows "set C \<subseteq> node_id ` set nodes \<Longrightarrow>
     forEach (releaseNode nodes graph) (map (lookupNode nodes) C) (d, map (lookupNode nodes) ids)
       = Inr (map_prod id (map (lookupNode nodes)) (fold releaseId (concat (map G C)) (d, ids)))"
proof (induction C arbitrary: d ids)
  case Nil
  then show ?case by simp
next
  case (Cons k C)
  then have k: "k \<in> node_id ` set nodes" and C: "set C \<subseteq> node_id ` set nodes" by simp_all
  from k obtain n where n: "lookupNode nodes k = Some n"
    by (cases "lookupNode nodes k") (auto simp: lookupNode_None)
  then have nk: "node_id n = k" using lookupNode_Some by blast
  obtain d1 ids1 where f: "fold releaseId (G k) (d, ids) = (d1, ids1)"
    by (cases "fold releaseId (G k) (d, ids)")
  have "releaseNode nodes graph (lookupNode nodes k) (d, map (lookupNode nodes) ids)
      = Inr (d1, map (lookupNode nodes) ids1)"
    using n nk k f by (simp add: releaseNode_def graph fold_releaseTarget_releaseId)
  with Cons.IH [OF C, of d1 ids1] f show ?case by simp
qed

lemma releaseId_ids:
  "fold releaseId ts (d, ids) = (d', ids') \<Longrightarrow> set ids' \<subseteq> set ids \<union> set ts"
proof (induction ts arbitrary: d ids)
  case Nil
  then show ?case by simp
next
  case (Cons u ts)
  obtain d1 ids1 where r: "releaseId u (d, ids) = (d1, ids1)"
    by (cases "releaseId u (d, ids)")
  then have "set ids1 \<subseteq> set ids \<union> {u}"
    by (auto simp: releaseId_def Let_def split: if_splits)
  with Cons.IH [of d1 ids1] Cons.prems r show ?case by auto
qed

lemma levelLoop_returns:
  assumes graph: "\<And>k. graph k = (if k \<in> node_id ` set nodes then Some (targetsOf cs k) else None)"
    and targets: "\<forall>c \<in> set cs. isDep c \<longrightarrow> conn_to c \<in> node_id ` set nodes"
  shows "set C \<subseteq> node_id ` set nodes \<Longrightarrow>
     \<exists>levels. levelLoop nodes graph d (map (lookupNode nodes) C) L = Inr levels"
proof (induction "2 * card (positives d) + (if C = [] then 0 else 1 :: nat)"
    arbitrary: d C L rule: less_induct)
  case less
  show ?case
  proof (cases "C = []")
    case True
    then show ?thesis by (simp add: levelLoop.simps)
  next
    case False
    let ?ts = "concat (map (targetsOf cs) C)"
    obtain d' C' where f: "fold releaseId ?ts (d, []) = (d', C')"
      by (cases "fold releaseId ?ts (d, [])")
    from forEach_releaseNode_returns [of graph nodes "targetsOf cs" C d "[]"] graph less.prems f
    have s: "forEach (releaseNode nodes graph) (map (lookupNode nodes) C) (d, [])
        = Inr (d', map (lookupNode nodes) C')"
      by simp
    have "set ?ts \<subseteq> node_id ` set nodes"
      using targets by (auto simp: targetsOf_def)
    with releaseId_ids [OF f] have C': "set C' \<subseteq> node_id ` set nodes" by auto
    from forEach_releaseNode_measure [OF s] have "card (positives d') + length C' \<le> card (positives d)"
      by simp
    then have m: "2 * card (positives d') + (if C' = [] then 0 else 1)
        < 2 * card (positives d) + (if C = [] then 0 else 1)"
      using False by (cases C') auto
    from less.hyps [OF m C', of "L @ [map (lookupNode nodes) C]"] s False show ?thesis
      by (simp add: levelLoop.simps [of nodes graph d "map (lookupNode nodes) C"])
  qed
qed

lemma hierarchicalLayout_returns:
  assumes dist: "distinct (map node_id nodes)"
    and ends: "\<forall>c \<in> set cs. conn_type c = dependency \<longrightarrow>
        conn_from c \<in> node_id ` set nodes \<and> conn_to c \<in> node_id ` set nodes"
  shows "\<exists>positions. hierarchicalLayout nodes cs options = Inr positions"
proof -
  from ends buildGraph_returns [of cs nodes] obtain graph d where
    b: "buildGraph nodes cs = Inr (graph, d)"
    by (auto simp: isDep_def)
  let ?C = "map node_id (filter (\<lambda>node. lookupCounter d (node_id node) = Some (Count 0)) nodes)"
  have cur: "map Some (filter (\<lambda>node. lookupCounter d (node_id node) = Some (Count 0)) nodes)
      = map (lookupNode nodes) ?C"
    using lookupNode_distinct [OF dist] by simp
  have graph: "graph k = (if k \<in> node_id ` set nodes then Some (targetsOf cs k) else None)" for k
    using buildGraph_tables [OF b] by simp
  have "\<exists>levels. levelLoop nodes graph d (map (lookupNode nodes) ?C) [] = Inr levels"
    by (rule levelLoop_returns [OF graph]) (use ends in \<open>auto simp: isDep_def\<close>)
  then obtain levels where l: "levelLoop nodes graph d (map (lookupNode nodes) ?C) [] = Inr levels"
    by blast
  have "layered nodes cs levels"
  proof (rule levelLoop_layered [where Ls = "[]" and C = ?C and d = d and graph = graph])
    show "graph k = (if k \<in> node_id ` set nodes then Some (targetsOf cs k) else None)" for k
      by (rule graph)
    show "levelInv nodes cs d ?C []" by (rule levelInv_initial [OF b dist])
    show "levelLoop nodes graph d (map (lookupNode nodes) ?C) (map (map (lookupNode nodes)) [])
        = Inr levels"
      using l by simp
  qed
  then obtain Ls where Ls: "levels = map (map (lookupNode nodes)) Ls"
    "set (concat Ls) \<subseteq> node_id ` set nodes" "distinct (concat Ls)"
    unfolding layered_def by blast
  from forEach_placeLevel [OF Ls(2,3), of "or_default (spacing options) 200"
      "or_default (centerX options) 0" "or_default (centerY options) 0" 0 Map.empty]
  obtain positions where
    "forEach (placeLevel (or_default (spacing options) 200)
        (or_default (centerX options) 0) (or_default (centerY options) 0))
      (enumerate 0 levels) Map.empty = Inr positions"
    unfolding Ls(1) by blast
  moreover from l have "levelLoop nodes graph d
      (map Some (filter (\<lambda>node. lookupCounter d (node_id node) = Some (Count 0)) nodes)) []
      = Inr levels"
    by (simp only: cur)
  ultimately show ?thesis
    using b by (simp add: hierarchicalLayout_def Let_def)
qed

subsection \<open>Force-directed layout\<close>

text \<open>
  Seeding gives every identifier of the list that is no inherited name a position;
  with distinct identifiers the node at index \<open>i\<close> gets the point at angle
  \<open>2\<pi>i/N\<close> of the circle of radius 200.
\<close>

lemma seedPosition_apply:
  "node_id v \<notin> set Object_prototype \<Longrightarrow>
   seedPosition n (i, v) m =
     (if m (node_id v) = None
      then m(node_id v \<mapsto> \<lparr>posX = cos ((real i / real n) * 2 * pi) * 200,
                              posY = sin ((real i / real n) * 2 * pi) * 200\<rparr>)
      else m)"
  by (simp add: seedPosition_def)

lemma fold_seedPosition_dom:
  "node_id ` set xs \<inter> set Object_prototype = {} \<Longrightarrow>
   dom (fold (seedPosition n) (enumerate j xs) m) = dom m \<union> node_id ` set xs"
proof (induction xs arbitrary: j m)
  case Nil
  then show ?case by simp
next
  case (Cons v xs)
  then have "node_id v \<notin> set Object_prototype" "node_id ` set xs \<inter> set Object_prototype = {}"
    by auto
  then show ?case
    by (simp add: Cons.IH seedPosition_apply) auto
qed

lemma seedPositions_dom:
  "node_id ` set nodes \<inter> set Object_prototype = {} \<Longrightarrow>
   dom (seedPositions nodes) = node_id ` set nodes"
  by (simp add: seedPositions_def fold_seedPosition_dom)

lemma fold_seedPosition_putAll:
  "distinct (map node_id xs) \<Longrightarrow> dom m \<inter> node_id ` set xs = {} \<Longrightarrow>
   node_id ` set xs \<inter> set Object_prototype = {} \<Longrightarrow>
   fold (seedPosition n) (enumerate j xs) m =
     putAll node_id (\<lambda>i v. \<lparr>posX = cos ((real i / real n) * 2 * pi) * 200,
                             posY = sin ((real i / real n) * 2 * pi) * 200\<rparr>) j xs m"
proof (induction xs arbitrary: j m)
  case Nil
  then show ?case by simp
next
  case (Cons v xs)
  from Cons.prems have "m (node_id v) = None" "node_id v \<notin> set Object_prototype" by auto
  moreover from Cons.prems have "distinct (map node_id xs)"
    "dom (m(node_id v \<mapsto> \<lparr>posX = cos ((real j / real n) * 2 * pi) * 200,
                             posY = sin ((real j / real n) * 2 * pi) * 200\<rparr>))
       \<inter> node_id ` set xs = {}"
    "node_id ` set xs \<inter> set Object_prototype = {}"
    by auto
  ultimately show ?case
    using Cons.IH by (simp add: seedPosition_apply)
qed

lemma seedPositions_nth:
  assumes "distinct (map node_id nodes)" and "i < length nodes"
    and "node_id ` set nodes \<inter> set Object_prototype = {}"
  shows "seedPositions nodes (node_id (nodes ! i)) =
     Some \<lparr>posX = cos ((real i / real (length nodes)) * 2 * pi) * 200,
           posY = sin ((real i / real (length nodes)) * 2 * pi) * 200\<rparr>"
  unfolding seedPositions_def
  using fold_seedPosition_putAll [OF assms(1) _ assms(3), of Map.empty "length nodes" 0]
    putAll_nth [OF assms(1,2), of _ 0 Map.empty]
  by simp

text \<open>A relaxation step never throws when every node has a position, and keeps the keys.\<close>

lemma getPosition_dom: "k \<in> dom m \<Longrightarrow> \<exists>p. getPosition m k = Inr p"
  by (auto simp: getPosition_def)

lemma repel_returns:
  assumes "node_id node \<in> dom positions" and "node_id other \<in> dom positions"
  shows "\<exists>f'. repel positions r node other f = Inr f'"
  using getPosition_dom [OF assms(1)] getPosition_dom [OF assms(2)]
  by (auto simp: repel_def Let_def)

lemma pull_returns:
  assumes "node_id node \<in> dom positions"
    and "\<And>e. found = Some e \<Longrightarrow> node_id e \<in> dom positions"
  shows "\<exists>f'. pull positions a node found f = Inr f'"
proof (cases found)
  case None
  then show ?thesis by (simp add: pull_def)
next
  case (Some e)
  with getPosition_dom [OF assms(1)] getPosition_dom [OF assms(2) [OF Some]]
  show ?thesis by (auto simp: pull_def Let_def)
qed

lemma find_in_set: "find P xs = Some e \<Longrightarrow> e \<in> set xs"
  by (auto simp: find_Some_iff)

lemma attract_returns:
  assumes "node_id ` set nodes \<subseteq> dom positions" and "node \<in> set nodes"
  shows "\<exists>f'. attract positions a nodes node conn f = Inr f'"
proof -
  have n: "node_id node \<in> dom positions" using assms by auto
  have p: "\<exists>f'. pull positions a node (find P nodes) g = Inr f'" for P g
  proof (rule pull_returns [OF n])
    fix e assume "find P nodes = Some e"
    from find_in_set [OF this] assms(1) show "node_id e \<in> dom positions" by auto
  qed
  obtain f1 where f1: "(if conn_from conn = node_id node
            then pull positions a node (find (\<lambda>n. node_id n = conn_to conn) nodes) f
            else Inr f) = Inr f1"
    using p [of "\<lambda>n. node_id n = conn_to conn" f]
    by (cases "conn_from conn = node_id node") auto
  obtain f2 where "(if conn_to conn = node_id node
           then pull positions a node (find (\<lambda>n. node_id n = conn_from conn) nodes) f1
           else Inr f1) = Inr f2"
    using p [of "\<lambda>n. node_id n = conn_from conn" f1]
    by (cases "conn_to conn = node_id node") auto
  with f1 show ?thesis by (simp add: attract_def)
qed

lemma forEach_returns:
  "(\<And>v s. v \<in> set xs \<Longrightarrow> \<exists>s'. f v s = Inr s') \<Longrightarrow> \<exists>s'. forEach f xs s = Inr s'"
proof (induction xs arbitrary: s)
  case Nil
  then show ?case by simp
next
  case (Cons v xs)
  from Cons.prems [of v s] obtain s1 where s1: "f v s = Inr s1" by auto
  from Cons.IH [of s1] Cons.prems obtain s' where "forEach f xs s1 = Inr s'" by auto
  with s1 show ?case by simp
qed

lemma nodeForce_returns:
  assumes "node_id ` set nodes \<subseteq> dom positions" and "node \<in> set nodes"
  shows "\<exists>force. nodeForce positions a r nodes conns node = Inr force"
proof -
  have "\<exists>f'. repel positions r node other f = Inr f'" if "other \<in> set nodes" for other f
  proof (rule repel_returns)
    show "node_id node \<in> dom positions" using assms by auto
    show "node_id other \<in> dom positions" using assms(1) that by auto
  qed
  from forEach_returns [of nodes "repel positions r node", OF this]
  obtain f1 where f1: "forEach (repel positions r node) nodes \<lparr>posX = 0, posY = 0\<rparr> = Inr f1"
    by blast
  from forEach_returns [of conns "attract positions a nodes node", OF attract_returns [OF assms]]
  obtain f2 where "forEach (attract positions a nodes node) conns f1 = Inr f2" by blast
  with f1 show ?thesis by (simp add: nodeForce_def)
qed

lemma forEach_forces:
  assumes "node_id ` set nodes \<subseteq> dom positions"
  shows "set xs \<subseteq> set nodes \<Longrightarrow>
     \<exists>forces'. forEach (\<lambda>node forces.
         case nodeForce positions a r nodes conns node of
           Inl e \<Rightarrow> Inl e
         | Inr force \<Rightarrow> Inr (forces(node_id node \<mapsto> force))) xs forces = Inr forces' \<and>
       dom forces' = dom forces \<union> node_id ` set xs"
proof (induction xs arbitrary: forces)
  case Nil
  then show ?case by simp
next
  case (Cons v xs)
  then have "v \<in> set nodes" "set xs \<subseteq> set nodes" by auto
  from nodeForce_returns [OF assms this(1), of a r conns] obtain force where
    f: "nodeForce positions a r nodes conns v = Inr force" by blast
  from Cons.IH [OF \<open>set xs \<subseteq> set nodes\<close>, of "forces(node_id v \<mapsto> force)"]
  obtain forces' where
    r: "forEach (\<lambda>node forces.
         case nodeForce positions a r nodes conns node of
           Inl e \<Rightarrow> Inl e
         | Inr force \<Rightarrow> Inr (forces(node_id node \<mapsto> force))) xs (forces(node_id v \<mapsto> force))
        = Inr forces'"
    and d: "dom forces' = dom (forces(node_id v \<mapsto> force)) \<union> node_id ` set xs"
    by blast
  from d have "dom forces' = dom forces \<union> node_id ` set (v # xs)" by auto
  with r f show ?case by simp
qed

lemma computeForces_returns:
  assumes "node_id ` set nodes \<subseteq> dom positions"
  shows "\<exists>forces. computeForces positions a r nodes conns = Inr forces \<and>
     dom forces = node_id ` set nodes"
  using forEach_forces [OF assms subset_refl, of a r conns Map.empty]
  by (simp add: computeForces_def)

lemma forEach_movePosition:
  assumes "node_id ` set nodes \<subseteq> dom forces"
  shows "set xs \<subseteq> set nodes \<Longrightarrow> node_id ` set nodes \<subseteq> dom positions \<Longrightarrow>
     \<exists>positions'. forEach (movePosition forces) xs positions = Inr positions' \<and>
       dom positions' = dom positions"
proof (induction xs arbitrary: positions)
  case Nil
  then show ?case by simp
next
  case (Cons v xs)
  then have v: "node_id v \<in> dom positions" "node_id v \<in> dom forces"
    and xs: "set xs \<subseteq> set nodes"
    using assms by auto
  from getPosition_dom [OF v(1)] getPosition_dom [OF v(2)] obtain p f where
    "getPosition positions (node_id v) = Inr p" "getPosition forces (node_id v) = Inr f"
    by blast
  then obtain p1 where m: "movePosition forces v positions = Inr p1"
    and p1: "p1 = positions(node_id v \<mapsto> \<lparr>posX = posX p + posX f * 0.9,
                                              posY = posY p + posY f * 0.9\<rparr>)"
    by (simp add: movePosition_def)
  have d: "dom p1 = dom positions" using v(1) unfolding p1 by auto
  with Cons.prems(2) have "node_id ` set nodes \<subseteq> dom p1" by simp
  from Cons.IH [OF xs this] obtain positions' where
    "forEach (movePosition forces) xs p1 = Inr positions'" "dom positions' = dom p1"
    by blast
  with m d show ?case by simp
qed

lemma relaxStep_returns:
  assumes "node_id ` set nodes \<subseteq> dom positions"
  shows "\<exists>positions'. relaxStep a r nodes conns positions = Inr positions' \<and>
     dom positions' = dom positions"
proof -
  from computeForces_returns [OF assms, of a r conns] obtain forces where
    f: "computeForces positions a r nodes conns = Inr forces" "dom forces = node_id ` set nodes"
    by blast
  from forEach_movePosition [of nodes forces nodes positions] f(2) assms
  obtain positions' where "forEach (movePosition forces) nodes positions = Inr positions'"
    "dom positions' = dom positions"
    by auto
  with f(1) show ?thesis by (simp add: relaxStep_def)
qed

lemma relaxLoop_returns:
  "node_id ` set nodes \<subseteq> dom positions \<Longrightarrow>
   \<exists>positions'. relaxLoop a r nodes conns m i positions = Inr positions' \<and>
     dom positions' = dom positions"
proof (induction a r nodes conns m i positions rule: relaxLoop.induct)
  case (1 a r nodes conns m i positions)
  show ?case
  proof (cases "real i < m")
    case False
    then show ?thesis by (simp add: relaxLoop.simps)
  next
    case True
    from relaxStep_returns [OF "1.prems", of a r conns] obtain p1 where
      p1: "relaxStep a r nodes conns positions = Inr p1" "dom p1 = dom positions"
      by blast
    with "1.prems" have "node_id ` set nodes \<subseteq> dom p1" by simp
    from "1.IH" [OF True p1(1) this] p1 True show ?thesis
      by (simp add: relaxLoop.simps [of a r nodes conns m i])
  qed
qed

lemma forceDirectedLayout_returns:
  "node_id ` set nodes \<inter> set Object_prototype = {} \<Longrightarrow>
   \<exists>positions. forceDirectedLayout nodes conns options = Inr positions \<and>
     dom positions = node_id ` set nodes"
  unfolding forceDirectedLayout_def Let_def
  using relaxLoop_returns [of nodes "seedPositions nodes"]
  by (simp add: seedPositions_dom)

text \<open>The loop runs \<open>\<lceil>m\<rceil> - i\<close> relaxation steps, and none when \<open>m \<le> i\<close>.\<close>

lemma relaxLoop_relaxTimes:
  "relaxLoop a r nodes conns m i positions = relaxTimes a r nodes conns (nat \<lceil>m\<rceil> - i) positions"
proof (induction a r nodes conns m i positions rule: relaxLoop.induct)
  case (1 a r nodes conns m i positions)
  show ?case
  proof (cases "real i < m")
    case False
    then have "nat \<lceil>m\<rceil> - i = 0" by linarith
    with False show ?thesis by (simp add: relaxLoop.simps)
  next
    case True
    then have n: "nat \<lceil>m\<rceil> - i = Suc (nat \<lceil>m\<rceil> - (i + 1))" by linarith
    show ?thesis
    proof (cases "relaxStep a r nodes conns positions")
      case (Inl e)
      with True show ?thesis
        by (simp add: relaxLoop.simps [of a r nodes conns m i] n)
    next
      case (Inr p1)
      with "1.IH" [OF True Inr] True show ?thesis
        by (simp add: relaxLoop.simps [of a r nodes conns m i] n)
    qed
  qed
qed

subsection \<open>Keys of the returned mapping\<close>

text \<open>
  Claim C1 fails as stated, both ways. Hierarchical layout leaves out the nodes A and B
  of a dependency cycle and the node C that depends on B, and places the node D only;
  center-on-node leaves out the node B that no edge joins to the focus node A; and
  center-on-node returns a position for \<^verbatim>\<open>constructor\<close>, which is no node, when an
  edge joins it to the focus node, because \<^verbatim>\<open>nodes[nextNodeId]\<close> reads the value
  that every object inherits.
\<close>

theorem hierarchical_and_center_keys_differ:
  "applyLayout [(''D'', nodeAt ''D'' 0 0), (''A'', nodeAt ''A'' 0 0), (''B'', nodeAt ''B'' 0 0),
                (''C'', nodeAt ''C'' 0 0)]
      [edge ''A'' ''B'' dependency, edge ''B'' ''A'' dependency, edge ''B'' ''C'' dependency]
      (noOptions hierarchical)
     = Inr [''D'' \<mapsto> \<lparr>posX = -100, posY = 0\<rparr>] \<and>
   centerOnNode [(''A'', nodeAt ''A'' 0 0), (''B'', nodeAt ''B'' 0 0)] ''A'' []
     = Inr [''A'' \<mapsto> \<lparr>posX = 0, posY = 0\<rparr>] \<and>
   (\<exists>positions.
      centerOnNode [(''A'', nodeAt ''A'' 0 0)] ''A'' [edge ''A'' ''constructor'' related]
        = Inr positions \<and>
      dom positions = {''A'', ''constructor''})"
proof (intro conjI)
  show "applyLayout [(''D'', nodeAt ''D'' 0 0), (''A'', nodeAt ''A'' 0 0), (''B'', nodeAt ''B'' 0 0),
                (''C'', nodeAt ''C'' 0 0)]
      [edge ''A'' ''B'' dependency, edge ''B'' ''A'' dependency, edge ''B'' ''C'' dependency]
      (noOptions hierarchical)
     = Inr [''D'' \<mapsto> \<lparr>posX = -100, posY = 0\<rparr>]"
    by (simp add: hierarchical_defs example_defs)
  show "centerOnNode [(''A'', nodeAt ''A'' 0 0), (''B'', nodeAt ''B'' 0 0)] ''A'' []
     = Inr [''A'' \<mapsto> \<lparr>posX = 0, posY = 0\<rparr>]"
    by (simp add: centerOnNode_def hasProperty_def Set_add_def bfsLoop.simps)
  show "\<exists>positions.
      centerOnNode [(''A'', nodeAt ''A'' 0 0)] ''A'' [edge ''A'' ''constructor'' related]
        = Inr positions \<and>
      dom positions = {''A'', ''constructor''}"
    by (auto simp: centerOnNode_def hasProperty_def Object_prototype_def Set_add_def
        bfsLoop.simps discover_def edge_def Let_def)
qed

lemma gridLayout_dom: "dom (gridLayout nodes options) = node_id ` set nodes"
proof -
  have "\<exists>g. gridLayout nodes options = putAll node_id g 0 nodes Map.empty"
    unfolding gridLayout_def putAll_def Let_def by (rule exI) (rule refl)
  then obtain g where "gridLayout nodes options = putAll node_id g 0 nodes Map.empty" ..
  then show ?thesis by (simp only: putAll_dom) simp
qed

lemma circularLayout_dom: "dom (circularLayout nodes options) = node_id ` set nodes"
  by (simp add: circularLayout_putAll putAll_dom)

lemma centerOnNode_links:
  assumes "focus \<notin> set Object_prototype"
    and "\<forall>c \<in> set cs. conn_from c \<notin> set Object_prototype \<and> conn_to c \<notin> set Object_prototype"
  shows "\<exists>positions. centerOnNode nodes focus cs = Inr positions \<and>
     dom positions = (if focus \<in> fst ` set nodes then (links nodes cs)\<^sup>* `` {focus} else {})"
proof (cases "focus \<in> fst ` set nodes")
  case True
  then have "hasProperty nodes focus" by (simp add: hasProperty_properties properties_def)
  from centerOnNode_dom [OF this, of cs] True steps_links [OF assms(2), of nodes]
  show ?thesis by simp
next
  case False
  with assms(1) have "\<not> hasProperty nodes focus"
    by (simp add: hasProperty_properties properties_def)
  with False show ?thesis by (simp add: centerOnNode_def)
qed

text \<open>
  Claim C1, amended. For nodes with distinct identifiers, none of them a name that
  objects inherit:

  \<^item> force-directed, circular and grid layout always return a mapping, and its keys are
    exactly the identifiers of the input nodes;
  \<^item> the keys of a mapping that hierarchical layout returns are exactly the identifiers
    of the input nodes that no dependency cycle leads to (a node is left out when it is
    on a cycle of dependency edges, or can be reached from such a cycle along
    dependency edges); hierarchical layout does return a mapping when the two ends of
    every dependency edge are input nodes;
  \<^item> when neither the focus identifier nor an end of an edge is an inherited name,
    center-on-node always returns a mapping, and its keys are exactly the keys of the
    input nodes that a path of edges (of any type, in either direction, through
    non-empty keys of input nodes) joins to the focus node, the focus node included;
    the mapping is empty when the focus identifier is no key of the input nodes.
\<close>

theorem layout_keys:
  assumes "distinct (map node_id (Object_values nodes))"
    and "node_id ` set (Object_values nodes) \<inter> set Object_prototype = {}"
  shows "(algorithm options \<noteq> hierarchical \<longrightarrow>
        (\<exists>positions. applyLayout nodes connections options = Inr positions \<and>
           dom positions = node_id ` set (Object_values nodes))) \<and>
     (algorithm options = hierarchical \<longrightarrow>
        (\<forall>positions. applyLayout nodes connections options = Inr positions \<longrightarrow>
           dom positions =
             {n \<in> node_id ` set (Object_values nodes).
                \<forall>m. (m, n) \<in> (dependencies connections)\<^sup>* \<longrightarrow>
                    (m, m) \<notin> (dependencies connections)\<^sup>+}) \<and>
        ((\<forall>c \<in> set connections. conn_type c = dependency \<longrightarrow>
            conn_from c \<in> node_id ` set (Object_values nodes) \<and>
            conn_to c \<in> node_id ` set (Object_values nodes)) \<longrightarrow>
         (\<exists>positions. applyLayout nodes connections options = Inr positions))) \<and>
     (focus \<notin> set Object_prototype \<and>
      (\<forall>c \<in> set connections.
         conn_from c \<notin> set Object_prototype \<and> conn_to c \<notin> set Object_prototype) \<longrightarrow>
        (\<exists>positions. centerOnNode nodes focus connections = Inr positions \<and>
           dom positions =
             (if focus \<in> fst ` set nodes then (links nodes connections)\<^sup>* `` {focus} else {})))"
proof (intro conjI allI impI)
  let ?ns = "Object_values nodes"
  show "\<exists>positions. applyLayout nodes connections options = Inr positions \<and>
      dom positions = node_id ` set ?ns" if "algorithm options \<noteq> hierarchical"
  proof (cases "?ns = []")
    case True
    then show ?thesis by (simp add: applyLayout_def)
  next
    case False
    show ?thesis
    proof (cases "algorithm options")
      case force_directed
      with False forceDirectedLayout_returns [OF assms(2), of connections options] show ?thesis
        by (simp add: applyLayout_def Let_def)
    next
      case hierarchical
      with that show ?thesis by simp
    next
      case circular
      with False show ?thesis by (simp add: applyLayout_def Let_def circularLayout_dom)
    next
      case grid
      with False show ?thesis by (simp add: applyLayout_def Let_def gridLayout_dom)
    qed
  qed
  show "dom positions =
      {n \<in> node_id ` set ?ns.
         \<forall>m. (m, n) \<in> (dependencies connections)\<^sup>* \<longrightarrow> (m, m) \<notin> (dependencies connections)\<^sup>+}"
    if h: "algorithm options = hierarchical"
      and a: "applyLayout nodes connections options = Inr positions" for positions
  proof (cases "?ns = []")
    case True
    with a show ?thesis by (simp add: applyLayout_def)
  next
    case False
    with a h have "hierarchicalLayout ?ns connections options = Inr positions"
      by (simp add: applyLayout_def Let_def)
    then show ?thesis by (rule hierarchicalLayout_dom [OF assms(1)])
  qed
  show "\<exists>positions. applyLayout nodes connections options = Inr positions"
    if h: "algorithm options = hierarchical"
      and e: "\<forall>c \<in> set connections. conn_type c = dependency \<longrightarrow>
            conn_from c \<in> node_id ` set ?ns \<and> conn_to c \<in> node_id ` set ?ns"
  proof (cases "?ns = []")
    case True
    then show ?thesis by (simp add: applyLayout_def)
  next
    case False
    with h hierarchicalLayout_returns [OF assms(1) e, of options] show ?thesis
      by (simp add: applyLayout_def Let_def)
  qed
  show "\<exists>positions. centerOnNode nodes focus connections = Inr positions \<and>
      dom positions =
        (if focus \<in> fst ` set nodes then (links nodes connections)\<^sup>* `` {focus} else {})"
    if "focus \<notin> set Object_prototype \<and>
      (\<forall>c \<in> set connections.
         conn_from c \<notin> set Object_prototype \<and> conn_to c \<notin> set Object_prototype)"
    using that centerOnNode_links [of focus connections nodes] by blast
qed

theorem layout_keys_witness:
  "distinct (map node_id (Object_values
      [(''A'', nodeAt ''A'' 0 0), (''B'', nodeAt ''B'' 0 0), (''C'', nodeAt ''C'' 0 0),
       (''D'', nodeAt ''D'' 0 0)])) \<and>
   node_id ` set (Object_values
      [(''A'', nodeAt ''A'' 0 0), (''B'', nodeAt ''B'' 0 0), (''C'', nodeAt ''C'' 0 0),
       (''D'', nodeAt ''D'' 0 0)]) \<inter> set Object_prototype = {} \<and>
   (\<exists>positions.
      applyLayout [(''A'', nodeAt ''A'' 0 0), (''B'', nodeAt ''B'' 0 0), (''C'', nodeAt ''C'' 0 0),
                   (''D'', nodeAt ''D'' 0 0)]
        [edge ''A'' ''B'' dependency, edge ''B'' ''A'' dependency, edge ''B'' ''C'' dependency]
        (noOptions grid) = Inr positions \<and>
      dom positions = {''A'', ''B'', ''C'', ''D''}) \<and>
   list_all (\<lambda>c. conn_type c = dependency \<longrightarrow>
               conn_from c \<in> {''A'', ''B'', ''C'', ''D''} \<and> conn_to c \<in> {''A'', ''B'', ''C'', ''D''})
     [edge ''A'' ''B'' dependency, edge ''B'' ''A'' dependency, edge ''B'' ''C'' dependency] \<and>
   (\<exists>positions.
      applyLayout [(''A'', nodeAt ''A'' 0 0), (''B'', nodeAt ''B'' 0 0), (''C'', nodeAt ''C'' 0 0),
                   (''D'', nodeAt ''D'' 0 0)]
        [edge ''A'' ''B'' dependency, edge ''B'' ''A'' dependency, edge ''B'' ''C'' dependency]
        (noOptions hierarchical) = Inr positions) \<and>
   applyLayout [(''A'', nodeAt ''A'' 0 0), (''B'', nodeAt ''B'' 0 0), (''C'', nodeAt ''C'' 0 0),
                (''D'', nodeAt ''D'' 0 0)]
     [edge ''A'' ''B'' dependency, edge ''B'' ''A'' dependency, edge ''B'' ''C'' dependency]
     (noOptions hierarchical) = Inr [''D'' \<mapsto> \<lparr>posX = -100, posY = 0\<rparr>] \<and>
   {''D''} =
     {n \<in> {''A'', ''B'', ''C'', ''D''}.
        \<forall>m. (m, n) \<in> (dependencies
                 [edge ''A'' ''B'' dependency, edge ''B'' ''A'' dependency,
                  edge ''B'' ''C'' dependency])\<^sup>* \<longrightarrow>
            (m, m) \<notin> (dependencies
                 [edge ''A'' ''B'' dependency, edge ''B'' ''A'' dependency,
                  edge ''B'' ''C'' dependency])\<^sup>+} \<and>
   ''C'' \<notin> set Object_prototype \<and>
   list_all (\<lambda>c. conn_from c \<notin> set Object_prototype \<and> conn_to c \<notin> set Object_prototype)
     [edge ''A'' ''B'' dependency, edge ''B'' ''A'' dependency, edge ''B'' ''C'' dependency] \<and>
   (\<exists>positions.
      centerOnNode [(''A'', nodeAt ''A'' 0 0), (''B'', nodeAt ''B'' 0 0), (''C'', nodeAt ''C'' 0 0),
                    (''D'', nodeAt ''D'' 0 0)] ''C''
        [edge ''A'' ''B'' dependency, edge ''B'' ''A'' dependency, edge ''B'' ''C'' dependency]
        = Inr positions \<and>
      dom positions =
        (links [(''A'', nodeAt ''A'' 0 0), (''B'', nodeAt ''B'' 0 0), (''C'', nodeAt ''C'' 0 0),
                (''D'', nodeAt ''D'' 0 0)]
           [edge ''A'' ''B'' dependency, edge ''B'' ''A'' dependency,
            edge ''B'' ''C'' dependency])\<^sup>* `` {''C''})"
proof -
  define ns where "ns = [(''A'', nodeAt ''A'' 0 0), (''B'', nodeAt ''B'' 0 0),
     (''C'', nodeAt ''C'' 0 0), (''D'', nodeAt ''D'' 0 0)]"
  define cs where "cs = [edge ''A'' ''B'' dependency, edge ''B'' ''A'' dependency,
     edge ''B'' ''C'' dependency]"
  have d: "distinct (map node_id (Object_values ns))"
    by (simp add: ns_def example_defs)
  have p: "node_id ` set (Object_values ns) \<inter> set Object_prototype = {}"
    by (simp add: ns_def example_defs Object_prototype_def)
  have ids: "node_id ` set (Object_values ns) = {''A'', ''B'', ''C'', ''D''}"
    by (simp add: ns_def example_defs)
  have keys: "''C'' \<in> fst ` set ns" by (simp add: ns_def)
  have g: "algorithm (noOptions grid) \<noteq> hierarchical"
    and h: "algorithm (noOptions hierarchical) = hierarchical"
    by (simp_all add: noOptions_def)
  have e: "''C'' \<notin> set Object_prototype \<and>
      (\<forall>c \<in> set cs. conn_from c \<notin> set Object_prototype \<and> conn_to c \<notin> set Object_prototype)"
    by (simp add: cs_def edge_def Object_prototype_def)
  have a: "applyLayout ns cs (noOptions hierarchical) = Inr [''D'' \<mapsto> \<lparr>posX = -100, posY = 0\<rparr>]"
    unfolding ns_def cs_def by (simp add: hierarchical_defs example_defs)
  have e2: "list_all (\<lambda>c. conn_type c = dependency \<longrightarrow>
      conn_from c \<in> {''A'', ''B'', ''C'', ''D''} \<and> conn_to c \<in> {''A'', ''B'', ''C'', ''D''}) cs"
    by (simp add: cs_def edge_def)
  then have e2': "\<forall>c \<in> set cs. conn_type c = dependency \<longrightarrow>
      conn_from c \<in> node_id ` set (Object_values ns) \<and>
      conn_to c \<in> node_id ` set (Object_values ns)"
    unfolding ids by (simp only: list_all_iff)
  have e1: "''C'' \<notin> set Object_prototype"
    by (rule e [THEN conjunct1])
  have e3: "list_all (\<lambda>c. conn_from c \<notin> set Object_prototype \<and> conn_to c \<notin> set Object_prototype) cs"
    unfolding list_all_iff by (rule e [THEN conjunct2])
  have dm: "dom [''D'' \<mapsto> \<lparr>posX = -100, posY = 0::real\<rparr>] = {''D''}" by simp
  note k1 = layout_keys [OF d p, of "noOptions grid" cs "''C''"]
  note k2 = layout_keys [OF d p, of "noOptions hierarchical" cs "''C''"]
  have 1: "\<exists>positions. applyLayout ns cs (noOptions grid) = Inr positions \<and>
      dom positions = {''A'', ''B'', ''C'', ''D''}"
    using k1 [THEN conjunct1, THEN mp, OF g] unfolding ids .
  have 2: "{''D''} =
      {n \<in> {''A'', ''B'', ''C'', ''D''}.
         \<forall>m. (m, n) \<in> (dependencies cs)\<^sup>* \<longrightarrow> (m, m) \<notin> (dependencies cs)\<^sup>+}"
    using k2 [THEN conjunct2, THEN conjunct1, THEN mp, OF h, THEN conjunct1, THEN spec,
        THEN mp, OF a]
    unfolding ids dm .
  have r: "\<exists>positions. applyLayout ns cs (noOptions hierarchical) = Inr positions"
    using k2 [THEN conjunct2, THEN conjunct1, THEN mp, OF h, THEN conjunct2, THEN mp, OF e2'] .
  have 3: "\<exists>positions. centerOnNode ns ''C'' cs = Inr positions \<and>
      dom positions = (links ns cs)\<^sup>* `` {''C''}"
    using k1 [THEN conjunct2, THEN conjunct2, THEN mp, OF e] unfolding if_P [OF keys] .
  from d p 1 e2 r a 2 e1 e3 3 show ?thesis unfolding ns_def cs_def by (intro conjI)
qed

subsection \<open>Force-directed layout with no iterations asked for\<close>

text \<open>Two nodes without edges drift apart along the abscissa at every relaxation step.\<close>

lemma distanceOr1_axis: "dx \<noteq> 0 \<Longrightarrow> distanceOr1 dx 0 = \<bar>dx\<bar>"
  by (simp add: distanceOr1_def)

lemma repel_axis:
  assumes "positions (node_id node) = Some \<lparr>posX = xn, posY = 0\<rparr>"
    and "positions (node_id other) = Some \<lparr>posX = xo, posY = 0\<rparr>"
    and "node_id node \<noteq> node_id other" and "xo \<noteq> xn"
  shows "repel positions r node other force =
     Inr \<lparr>posX = posX force - ((xo - xn) / \<bar>xo - xn\<bar>) * (r / (\<bar>xo - xn\<bar> * \<bar>xo - xn\<bar>)),
          posY = posY force\<rparr>"
  using assms by (simp add: repel_def getPosition_def Let_def distanceOr1_axis)

lemma two_node_step:
  assumes "apart x0 positions" and "0 < r"
  shows "\<exists>positions' x1. relaxStep a r [nodeAt ''A'' 5 5, nodeAt ''B'' 7 7] [] positions
            = Inr positions' \<and> x0 < x1 \<and> apart x1 positions'"
proof -
  from assms(1) obtain xa xb where
    pa: "positions ''A'' = Some \<lparr>posX = xa, posY = 0\<rparr>"
    and pb: "positions ''B'' = Some \<lparr>posX = xb, posY = 0\<rparr>"
    and lt: "xb < xa" and x0: "x0 \<le> xa"
    by (auto simp: apart_def)
  define d where "d = xa - xb"
  define push where "push = r / (d * d)"
  have d: "0 < d" using lt by (simp add: d_def)
  have push: "0 < push" using d assms(2) by (simp add: push_def)
  let ?A = "nodeAt ''A'' 5 5" and ?B = "nodeAt ''B'' 7 7"
  have ids: "node_id ?A = ''A''" "node_id ?B = ''B''" by (simp_all add: nodeAt_def)
  have rAB: "repel positions r ?A ?B force = Inr \<lparr>posX = posX force + push, posY = posY force\<rparr>"
    for force
  proof -
    have "\<bar>xb - xa\<bar> = d" "(xb - xa) / d = -1" using d by (simp_all add: d_def field_simps)
    with repel_axis [of positions ?A xa ?B xb r force] pa pb lt show ?thesis
      by (simp add: ids push_def)
  qed
  have rBA: "repel positions r ?B ?A force = Inr \<lparr>posX = posX force - push, posY = posY force\<rparr>"
    for force
  proof -
    have "\<bar>xa - xb\<bar> = d" "(xa - xb) / d = 1" using d by (simp_all add: d_def)
    with repel_axis [of positions ?B xb ?A xa r force] pa pb lt show ?thesis
      by (simp add: ids push_def)
  qed
  have self: "repel positions r ?A ?A force = Inr force" "repel positions r ?B ?B force = Inr force"
    for force
    by (simp_all add: repel_def)
  have fA: "nodeForce positions a r [?A, ?B] [] ?A = Inr \<lparr>posX = push, posY = 0\<rparr>"
    by (simp add: nodeForce_def self rAB)
  have fB: "nodeForce positions a r [?A, ?B] [] ?B = Inr \<lparr>posX = - push, posY = 0\<rparr>"
    by (simp add: nodeForce_def self rBA)
  define forces :: Positions where
    "forces = [''A'' \<mapsto> \<lparr>posX = push, posY = 0\<rparr>, ''B'' \<mapsto> \<lparr>posX = - push, posY = 0\<rparr>]"
  have cf: "computeForces positions a r [?A, ?B] [] = Inr forces"
    by (simp add: computeForces_def fA fB ids forces_def)
  define xa1 where "xa1 = xa + push * 0.9"
  define xb1 where "xb1 = xb + (- push) * 0.9"
  define positions' where
    "positions' = positions(''A'' \<mapsto> \<lparr>posX = xa1, posY = 0\<rparr>,
                            ''B'' \<mapsto> \<lparr>posX = xb1, posY = 0\<rparr>)"
  have mA: "movePosition forces ?A positions
      = Inr (positions(''A'' \<mapsto> \<lparr>posX = xa1, posY = 0\<rparr>))"
    unfolding movePosition_def Let_def getPosition_def ids xa1_def
    by (simp add: pa forces_def)
  have mB: "movePosition forces ?B (positions(''A'' \<mapsto> \<lparr>posX = xa1, posY = 0\<rparr>))
      = Inr positions'"
    unfolding movePosition_def Let_def getPosition_def ids positions'_def xb1_def
    by (simp add: pb forces_def)
  have mv: "forEach (movePosition forces) [?A, ?B] positions = Inr positions'"
    by (simp add: mA mB)
  have step: "relaxStep a r [?A, ?B] [] positions = Inr positions'"
    by (simp only: relaxStep_def cf mv sum.case)
  have "xb1 < xa1" "x0 < xa1"
    using lt push x0 by (simp_all add: xa1_def xb1_def)
  then have "apart xa1 positions'" "x0 < xa1"
    by (simp_all add: apart_def positions'_def)
  with step show ?thesis by blast
qed

lemma apart_weaken: "apart x1 positions \<Longrightarrow> x0 \<le> x1 \<Longrightarrow> apart x0 positions"
  by (auto simp: apart_def)

lemma two_node_loop:
  "apart x0 positions \<Longrightarrow> 0 < r \<Longrightarrow>
   \<exists>positions'. relaxLoop a r [nodeAt ''A'' 5 5, nodeAt ''B'' 7 7] [] m i positions = Inr positions' \<and>
     apart x0 positions'"
proof (induction a r "[nodeAt ''A'' 5 5, nodeAt ''B'' 7 7]" "[] :: Connection list" m i positions
    rule: relaxLoop.induct)
  case (1 a r m i positions)
  show ?case
  proof (cases "real i < m")
    case False
    with "1.prems" show ?thesis by (simp add: relaxLoop.simps)
  next
    case True
    from two_node_step [OF "1.prems", of a] obtain p1 x1 where
      p1: "relaxStep a r [nodeAt ''A'' 5 5, nodeAt ''B'' 7 7] [] positions = Inr p1"
      "x0 < x1" "apart x1 p1"
      by blast
    from apart_weaken [OF p1(3)] p1(2) have "apart x0 p1" by simp
    from "1.hyps" [OF True p1(1) this "1.prems"(2)] p1(1) True show ?thesis
      by (simp add: relaxLoop.simps [of a r _ _ m i])
  qed
qed

lemma seed_two:
  "seedPositions [nodeAt ''A'' 5 5, nodeAt ''B'' 7 7] =
     [''A'' \<mapsto> \<lparr>posX = 200, posY = 0\<rparr>, ''B'' \<mapsto> \<lparr>posX = -200, posY = 0\<rparr>]"
  by (simp add: seedPositions_def seedPosition_def Object_prototype_def nodeAt_def
      enumerate_eq_zip)

text \<open>
  Claim C3 fails as stated: with \<^verbatim>\<open>maxIterations = 0\<close> the default of 100
  iterations runs, and two nodes without edges do not stay at their seeded positions.
\<close>

theorem forceDirected_zero_iterations_moves:
  "forceDirectedLayout [nodeAt ''A'' 5 5, nodeAt ''B'' 7 7] []
      ((noOptions force_directed)\<lparr>maxIterations := Some 0\<rparr>)
     \<noteq> Inr (seedPositions [nodeAt ''A'' 5 5, nodeAt ''B'' 7 7])"
proof
  let ?ns = "[nodeAt ''A'' 5 5, nodeAt ''B'' 7 7]"
  let ?seed = "seedPositions ?ns"
  assume eq: "forceDirectedLayout ?ns [] ((noOptions force_directed)\<lparr>maxIterations := Some 0\<rparr>)
     = Inr ?seed"
  have fd: "forceDirectedLayout ?ns [] ((noOptions force_directed)\<lparr>maxIterations := Some 0\<rparr>)
     = relaxLoop 0.01 1000 ?ns [] 100 0 ?seed"
    by (simp add: forceDirectedLayout_def or_default_def noOptions_def)
  have s0: "apart 200 ?seed" by (simp add: seed_two apart_def)
  from two_node_step [OF s0, of 1000 "0.01"] obtain p1 x1 where
    p1: "relaxStep 0.01 1000 ?ns [] ?seed = Inr p1" "200 < x1" "apart x1 p1"
    by auto
  from two_node_loop [OF p1(3), of 1000 "0.01" 100 1] obtain p' where
    p': "relaxLoop 0.01 1000 ?ns [] 100 1 p1 = Inr p'" "apart x1 p'"
    by auto
  have "relaxLoop 0.01 1000 ?ns [] 100 0 ?seed = Inr p'"
    using p1(1) p'(1) by (simp add: relaxLoop.simps [of _ _ _ _ 100 0])
  with eq fd have "apart x1 ?seed" using p'(2) by simp
  with p1(2) show False by (simp add: seed_two apart_def)
qed

text \<open>
  Claim C3, amended. Force-directed layout with \<^verbatim>\<open>maxIterations = 0\<close> takes the
  default: it returns what 100 relaxation steps make of the seeded positions, as it
  does with \<^verbatim>\<open>maxIterations\<close> omitted. With a positive \<^verbatim>\<open>maxIterations = m\<close> it
  returns what \<open>\<lceil>m\<rceil>\<close> relaxation steps make of them, and with a negative one the
  seeded positions themselves, with no relaxation step applied. The seeded position of
  the node at index \<open>i\<close>, of \<open>N\<close> nodes with distinct identifiers that are no inherited
  names, is exactly \<open>(200 cos(2\<pi>i/N), 200 sin(2\<pi>i/N))\<close>.
\<close>

theorem forceDirected_seeding:
  assumes "distinct (map node_id nodes)" and "i < length nodes"
    and "node_id ` set nodes \<inter> set Object_prototype = {}"
  shows "forceDirectedLayout nodes connections (options\<lparr>maxIterations := Some 0\<rparr>)
       = relaxTimes (or_default (attractionForce options) 0.01)
           (or_default (repulsionForce options) 1000) nodes connections 100
           (seedPositions nodes) \<and>
     forceDirectedLayout nodes connections (options\<lparr>maxIterations := None\<rparr>)
       = relaxTimes (or_default (attractionForce options) 0.01)
           (or_default (repulsionForce options) 1000) nodes connections 100
           (seedPositions nodes) \<and>
     (\<forall>m > 0. forceDirectedLayout nodes connections (options\<lparr>maxIterations := Some m\<rparr>)
        = relaxTimes (or_default (attractionForce options) 0.01)
            (or_default (repulsionForce options) 1000) nodes connections (nat \<lceil>m\<rceil>)
            (seedPositions nodes)) \<and>
     (\<forall>m < 0. forceDirectedLayout nodes connections (options\<lparr>maxIterations := Some m\<rparr>)
        = Inr (seedPositions nodes)) \<and>
     seedPositions nodes (node_id (nodes ! i)) =
       Some \<lparr>posX = cos ((real i / real (length nodes)) * 2 * pi) * 200,
             posY = sin ((real i / real (length nodes)) * 2 * pi) * 200\<rparr>"
proof (intro conjI allI impI)
  show "forceDirectedLayout nodes connections (options\<lparr>maxIterations := Some 0\<rparr>)
       = relaxTimes (or_default (attractionForce options) 0.01)
           (or_default (repulsionForce options) 1000) nodes connections 100
           (seedPositions nodes)"
    by (simp add: forceDirectedLayout_def or_default_def relaxLoop_relaxTimes)
  show "forceDirectedLayout nodes connections (options\<lparr>maxIterations := None\<rparr>)
       = relaxTimes (or_default (attractionForce options) 0.01)
           (or_default (repulsionForce options) 1000) nodes connections 100
           (seedPositions nodes)"
    by (simp add: forceDirectedLayout_def or_default_def relaxLoop_relaxTimes)
  show "forceDirectedLayout nodes connections (options\<lparr>maxIterations := Some m\<rparr>)
        = relaxTimes (or_default (attractionForce options) 0.01)
            (or_default (repulsionForce options) 1000) nodes connections (nat \<lceil>m\<rceil>)
            (seedPositions nodes)" if "0 < m" for m
    using that by (simp add: forceDirectedLayout_def or_default_def relaxLoop_relaxTimes)
  show "forceDirectedLayout nodes connections (options\<lparr>maxIterations := Some m\<rparr>)
        = Inr (seedPositions nodes)" if "m < 0" for m
    using that by (simp add: forceDirectedLayout_def or_default_def relaxLoop.simps)
  show "seedPositions nodes (node_id (nodes ! i)) =
       Some \<lparr>posX = cos ((real i / real (length nodes)) * 2 * pi) * 200,
             posY = sin ((real i / real (length nodes)) * 2 * pi) * 200\<rparr>"
    by (rule seedPositions_nth [OF assms])
qed

theorem forceDirected_seeding_witness:
  "distinct (map node_id [nodeAt ''A'' 5 5, nodeAt ''B'' 7 7]) \<and>
   node_id ` set [nodeAt ''A'' 5 5, nodeAt ''B'' 7 7] \<inter> set Object_prototype = {} \<and>
   forceDirectedLayout [nodeAt ''A'' 5 5, nodeAt ''B'' 7 7] [edge ''A'' ''B'' related]
       ((noOptions force_directed)\<lparr>maxIterations := Some 0\<rparr>)
     = relaxTimes 0.01 1000 [nodeAt ''A'' 5 5, nodeAt ''B'' 7 7] [edge ''A'' ''B'' related] 100
         (seedPositions [nodeAt ''A'' 5 5, nodeAt ''B'' 7 7]) \<and>
   forceDirectedLayout [nodeAt ''A'' 5 5, nodeAt ''B'' 7 7] [edge ''A'' ''B'' related]
       ((noOptions force_directed)\<lparr>maxIterations := Some 2\<rparr>)
     = relaxTimes 0.01 1000 [nodeAt ''A'' 5 5, nodeAt ''B'' 7 7] [edge ''A'' ''B'' related] 2
         (seedPositions [nodeAt ''A'' 5 5, nodeAt ''B'' 7 7]) \<and>
   forceDirectedLayout [nodeAt ''A'' 5 5, nodeAt ''B'' 7 7] [edge ''A'' ''B'' related]
       ((noOptions force_directed)\<lparr>maxIterations := Some (-1)\<rparr>)
     = Inr (seedPositions [nodeAt ''A'' 5 5, nodeAt ''B'' 7 7]) \<and>
   seedPositions [nodeAt ''A'' 5 5, nodeAt ''B'' 7 7] ''B'' = Some \<lparr>posX = -200, posY = 0\<rparr>"
proof -
  define ns where "ns = [nodeAt ''A'' 5 5, nodeAt ''B'' 7 7]"
  define cs where "cs = [edge ''A'' ''B'' related]"
  define os where "os = noOptions force_directed"
  have d: "distinct (map node_id ns)" and i: "Suc 0 < length ns"
    and p: "node_id ` set ns \<inter> set Object_prototype = {}"
    and n: "node_id (ns ! Suc 0) = ''B''" "length ns = 2"
    by (simp_all add: ns_def nodeAt_def Object_prototype_def)
  have o: "or_default (attractionForce os) 0.01 = 0.01" "or_default (repulsionForce os) 1000 = 1000"
    by (simp_all add: os_def noOptions_def or_default_def)
  note k = forceDirected_seeding [OF d i p, of cs os, unfolded o]
  have 0: "forceDirectedLayout ns cs (os\<lparr>maxIterations := Some 0\<rparr>)
      = relaxTimes 0.01 1000 ns cs 100 (seedPositions ns)"
    using k by (elim conjE)
  have "forceDirectedLayout ns cs (os\<lparr>maxIterations := Some 2\<rparr>)
      = relaxTimes 0.01 1000 ns cs (nat \<lceil>2::real\<rceil>) (seedPositions ns)"
    using k [THEN conjunct2, THEN conjunct2, THEN conjunct1, THEN spec, of 2] by simp
  then have 2: "forceDirectedLayout ns cs (os\<lparr>maxIterations := Some 2\<rparr>)
      = relaxTimes 0.01 1000 ns cs 2 (seedPositions ns)"
    by simp
  have 3: "forceDirectedLayout ns cs (os\<lparr>maxIterations := Some (-1)\<rparr>) = Inr (seedPositions ns)"
    using k [THEN conjunct2, THEN conjunct2, THEN conjunct2, THEN conjunct1, THEN spec, of "-1"]
    by simp
  have "seedPositions ns (node_id (ns ! Suc 0)) =
       Some \<lparr>posX = cos ((real (Suc 0) / real (length ns)) * 2 * pi) * 200,
             posY = sin ((real (Suc 0) / real (length ns)) * 2 * pi) * 200\<rparr>"
    using k by (elim conjE)
  then have 4: "seedPositions ns ''B'' = Some \<lparr>posX = -200, posY = 0\<rparr>"
    by (simp add: n)
  from d p 0 2 3 4 show ?thesis unfolding ns_def cs_def os_def by (intro conjI)
qed

subsection \<open>Edges with a missing endpoint\<close>

text \<open>
  The other paths do ignore an edge with a missing endpoint: force-directed layout
  finds no node for it, center-on-node no property of \<^verbatim>\<open>nodes\<close> (when the
  missing endpoint is no inherited name either), circular and grid layout read no edge
  at all, and hierarchical layout reads dependency edges only.
\<close>

lemma forEach_cong_set:
  "(\<And>v s. v \<in> set xs \<Longrightarrow> f v s = g v s) \<Longrightarrow> forEach f xs s = forEach g xs s"
  by (induction xs arbitrary: s) (auto split: sum.splits)

lemma forEach_drop:
  assumes "\<And>s. f c s = Inr s"
  shows "forEach f (cs1 @ c # cs2) s = forEach f (cs1 @ cs2) s"
  by (simp add: forEach_append assms split: sum.splits)

lemma attract_missing_endpoint:
  assumes "node \<in> set nodes"
    and "conn_from c \<notin> node_id ` set nodes \<or> conn_to c \<notin> node_id ` set nodes"
  shows "attract positions a nodes node c f = Inr f"
proof -
  have n: "node_id node \<in> node_id ` set nodes" using assms(1) by simp
  have none: "find (\<lambda>n. node_id n = k) nodes = None" if "k \<notin> node_id ` set nodes" for k
    using that by (auto simp: find_None_iff)
  show ?thesis
  proof (cases "conn_from c = node_id node")
    case True
    with n assms(2) have "conn_to c \<notin> node_id ` set nodes" by auto
    with True n none [OF this] show ?thesis
      by (auto simp: attract_def pull_def)
  next
    case False
    show ?thesis
    proof (cases "conn_to c = node_id node")
      case True
      with n assms(2) have "conn_from c \<notin> node_id ` set nodes" by auto
      with True False none [OF this] show ?thesis
        by (simp add: attract_def pull_def)
    next
      case no: False
      with False show ?thesis by (simp add: attract_def)
    qed
  qed
qed

lemma relaxStep_missing_endpoint:
  assumes "conn_from c \<notin> node_id ` set nodes \<or> conn_to c \<notin> node_id ` set nodes"
  shows "relaxStep a r nodes (cs1 @ c # cs2) positions = relaxStep a r nodes (cs1 @ cs2) positions"
proof -
  have "nodeForce positions a r nodes (cs1 @ c # cs2) node
      = nodeForce positions a r nodes (cs1 @ cs2) node" if "node \<in> set nodes" for node
    unfolding nodeForce_def
    using forEach_drop [of "attract positions a nodes node" c cs1 cs2]
      attract_missing_endpoint [OF that assms]
    by (simp split: sum.splits)
  then have "computeForces positions a r nodes (cs1 @ c # cs2)
      = computeForces positions a r nodes (cs1 @ cs2)"
    unfolding computeForces_def by (intro forEach_cong_set) simp
  then show ?thesis by (simp add: relaxStep_def)
qed

lemma relaxLoop_missing_endpoint:
  assumes "conn_from c \<notin> node_id ` set nodes \<or> conn_to c \<notin> node_id ` set nodes"
  shows "relaxLoop a r nodes (cs1 @ c # cs2) m i positions
       = relaxLoop a r nodes (cs1 @ cs2) m i positions"
  using assms
proof (induction a r nodes "cs1 @ cs2" m i positions rule: relaxLoop.induct)
  case (1 a r nodes m i positions)
  show ?case
  proof (cases "real i < m")
    case False
    then show ?thesis by (simp add: relaxLoop.simps)
  next
    case True
    show ?thesis
    proof (cases "relaxStep a r nodes (cs1 @ cs2) positions")
      case (Inl e)
      with True relaxStep_missing_endpoint [OF "1.prems"] show ?thesis
        by (simp add: relaxLoop.simps [of a r nodes _ m i])
    next
      case (Inr p1)
      from "1.hyps" [OF True Inr "1.prems"] True Inr relaxStep_missing_endpoint [OF "1.prems"]
      show ?thesis
        by (simp add: relaxLoop.simps [of a r nodes _ m i])
    qed
  qed
qed

lemma buildGraph_not_dependency:
  "conn_type c \<noteq> dependency \<Longrightarrow> buildGraph nodes (cs1 @ c # cs2) = buildGraph nodes (cs1 @ cs2)"
  unfolding buildGraph_def by (rule forEach_drop) (simp add: addDependency_def split: prod.splits)

lemma applyLayout_ignores_missing_endpoint:
  assumes "conn_from c \<notin> node_id ` set (Object_values nodes) \<or>
           conn_to c \<notin> node_id ` set (Object_values nodes)"
    and "algorithm options \<noteq> hierarchical \<or> conn_type c \<noteq> dependency"
  shows "applyLayout nodes (cs1 @ c # cs2) options = applyLayout nodes (cs1 @ cs2) options"
proof (cases "algorithm options")
  case force_directed
  then show ?thesis
    by (simp add: applyLayout_def forceDirectedLayout_def Let_def
        relaxLoop_missing_endpoint [OF assms(1)])
next
  case hierarchical
  with assms(2) have "conn_type c \<noteq> dependency" by simp
  with hierarchical show ?thesis
    by (simp add: applyLayout_def hierarchicalLayout_def buildGraph_not_dependency Let_def)
next
  case circular
  then show ?thesis by (simp add: applyLayout_def Let_def)
next
  case grid
  then show ?thesis by (simp add: applyLayout_def Let_def)
qed

text \<open>In the traversal, the queue and the visited set hold properties of \<^verbatim>\<open>nodes\<close> only.\<close>

lemma discover_inKeys:
  assumes "discover nodes nodeId levelSize radius level conn (q, v, p) = (q', v', p')"
    and "inKeys nodes (q, v, p)"
  shows "inKeys nodes (q', v', p')"
  using assms(1)
proof (cases rule: discover_cases)
  case skip
  with assms(2) show ?thesis by simp
next
  case (add k a)
  with assms(2) show ?thesis
    by (auto simp: inKeys_def hasProperty_properties)
qed

lemma fold_discover_inKeys:
  "fold (discover nodes nodeId levelSize radius level) conns (q, v, p) = (q', v', p') \<Longrightarrow>
   inKeys nodes (q, v, p) \<Longrightarrow> inKeys nodes (q', v', p')"
proof (induction conns arbitrary: q v p)
  case Nil
  then show ?case by simp
next
  case (Cons c conns)
  obtain q1 v1 p1 where
    s: "discover nodes nodeId levelSize radius level c (q, v, p) = (q1, v1, p1)"
    by (cases "discover nodes nodeId levelSize radius level c (q, v, p)") auto
  with Cons.prems have
    f: "fold (discover nodes nodeId levelSize radius level) conns (q1, v1, p1) = (q', v', p')"
    by simp
  from Cons.IH [OF f discover_inKeys [OF s Cons.prems(2)]] show ?case .
qed

lemma discover_missing_endpoint:
  assumes "nodeId \<in> properties nodes" and "set v \<subseteq> properties nodes"
    and "conn_from c \<notin> properties nodes \<or> conn_to c \<notin> properties nodes"
  shows "discover nodes nodeId levelSize radius level c (q, v, p) = (q, v, p)"
proof -
  have none: "\<not> hasProperty nodes k" if "k \<notin> properties nodes" for k
    using that by (simp add: hasProperty_properties)
  let ?next = "if conn_from c = nodeId \<and> conn_to c \<notin> set v then Some (conn_to c)
      else if conn_to c = nodeId \<and> conn_from c \<notin> set v then Some (conn_from c)
      else None"
  have "?next = None \<or> (\<exists>k. ?next = Some k \<and> k \<notin> properties nodes)"
    using assms by auto
  then show ?thesis
  proof
    assume "?next = None"
    then show ?thesis unfolding discover_def Let_def by simp
  next
    assume "\<exists>k. ?next = Some k \<and> k \<notin> properties nodes"
    then obtain k where "?next = Some k" "\<not> hasProperty nodes k"
      using none by blast
    then show ?thesis unfolding discover_def Let_def by simp
  qed
qed

lemma fold_discover_missing_endpoint:
  assumes "nodeId \<in> properties nodes" and "inKeys nodes (q, v, p)"
    and "conn_from c \<notin> properties nodes \<or> conn_to c \<notin> properties nodes"
  shows "fold (discover nodes nodeId levelSize radius level) (cs1 @ c # cs2) (q, v, p)
       = fold (discover nodes nodeId levelSize radius level) (cs1 @ cs2) (q, v, p)"
proof -
  obtain q1 v1 p1 where
    f: "fold (discover nodes nodeId levelSize radius level) cs1 (q, v, p) = (q1, v1, p1)"
    by (cases "fold (discover nodes nodeId levelSize radius level) cs1 (q, v, p)") auto
  from fold_discover_inKeys [OF f assms(2)] have "set v1 \<subseteq> properties nodes"
    by (simp add: inKeys_def)
  from discover_missing_endpoint [OF assms(1) this assms(3)] f show ?thesis by simp
qed

lemma visitLevel_missing_endpoint:
  assumes "conn_from c \<notin> properties nodes \<or> conn_to c \<notin> properties nodes"
  shows "inKeys nodes (q, v, p) \<Longrightarrow>
     visitLevel nodes (cs1 @ c # cs2) levelSize radius level rounds (q, v, p)
       = visitLevel nodes (cs1 @ cs2) levelSize radius level rounds (q, v, p)"
proof (induction rounds arbitrary: q v p)
  case 0
  then show ?case by simp
next
  case (Suc rounds)
  show ?case
  proof (cases q)
    case Nil
    then show ?thesis by simp
  next
    case (Cons item rest)
    with Suc.prems have item: "item_nodeId item \<in> properties nodes"
      and rest: "inKeys nodes (rest, v, p)"
      by (simp_all add: inKeys_def)
    obtain q1 v1 p1 where
      f: "fold (discover nodes (item_nodeId item) levelSize radius level) (cs1 @ cs2) (rest, v, p)
          = (q1, v1, p1)"
      by (cases "fold (discover nodes (item_nodeId item) levelSize radius level) (cs1 @ cs2)
            (rest, v, p)") auto
    from fold_discover_inKeys [OF f rest] have "inKeys nodes (q1, v1, p1)" .
    from Suc.IH [OF this] fold_discover_missing_endpoint [OF item rest assms] f Cons
    show ?thesis by simp
  qed
qed

lemma visitLevel_inKeys:
  "visitLevel nodes conns levelSize radius level rounds (q, v, p) = Inr (q', v', p') \<Longrightarrow>
   inKeys nodes (q, v, p) \<Longrightarrow> inKeys nodes (q', v', p')"
proof (induction rounds arbitrary: q v p)
  case 0
  then show ?case by simp
next
  case (Suc rounds)
  from Suc.prems obtain item rest where q: "q = item # rest" by (cases q) auto
  with Suc.prems have rest: "inKeys nodes (rest, v, p)" by (simp add: inKeys_def)
  obtain q1 v1 p1 where
    f: "fold (discover nodes (item_nodeId item) levelSize radius level) conns (rest, v, p)
        = (q1, v1, p1)"
    by (cases "fold (discover nodes (item_nodeId item) levelSize radius level) conns (rest, v, p)")
      auto
  with Suc.prems q have
    "visitLevel nodes conns levelSize radius level rounds (q1, v1, p1) = Inr (q', v', p')"
    by simp
  from Suc.IH [OF this fold_discover_inKeys [OF f rest]] show ?case .
qed

lemma bfsLoop_missing_endpoint:
  assumes "conn_from c \<notin> properties nodes \<or> conn_to c \<notin> properties nodes"
  shows "inKeys nodes (q, v, p) \<Longrightarrow>
     bfsLoop nodes (cs1 @ c # cs2) level (q, v, p) = bfsLoop nodes (cs1 @ cs2) level (q, v, p)"
  using assms
proof (induction nodes "cs1 @ cs2" level "(q, v, p)" arbitrary: q v p rule: bfsLoop.induct)
  case (1 nodes level q v p)
  show ?case
  proof (cases "q = []")
    case True
    then show ?thesis by (simp add: bfsLoop.simps)
  next
    case False
    let ?r = "(real level + 1) * 150"
    note same = visitLevel_missing_endpoint [OF "1.prems"(2,1), of cs1 cs2 "length q" ?r level "length q"]
    show ?thesis
    proof (cases "visitLevel nodes (cs1 @ cs2) (length q) ?r level (length q) (q, v, p)")
      case (Inl e)
      with False same show ?thesis
        by (simp add: bfsLoop.simps [of nodes _ level q v p] Let_def)
    next
      case (Inr state')
      obtain q' v' p' where s: "state' = (q', v', p')" by (cases state') auto
      from visitLevel_inKeys [OF Inr [unfolded s] "1.prems"(1)] have
        k: "inKeys nodes (q', v', p')" .
      from "1.hyps" [OF False refl refl Inr [unfolded s] k "1.prems"(2)] False same Inr s
      show ?thesis
        by (simp add: bfsLoop.simps [of nodes _ level q v p] Let_def)
    qed
  qed
qed

lemma centerOnNode_ignores_missing_endpoint:
  assumes "conn_from c \<notin> properties nodes \<or> conn_to c \<notin> properties nodes"
  shows "centerOnNode nodes focus (cs1 @ c # cs2) = centerOnNode nodes focus (cs1 @ cs2)"
proof (cases "hasProperty nodes focus")
  case False
  then show ?thesis by (simp add: centerOnNode_def)
next
  case True
  then have "focus \<in> properties nodes" by (simp add: hasProperty_properties)
  then have "inKeys nodes ([\<lparr>item_nodeId = focus, item_level = 0, item_angle = 0\<rparr>], [focus],
      [focus \<mapsto> \<lparr>posX = 0, posY = 0\<rparr>])"
    by (simp add: inKeys_def)
  from bfsLoop_missing_endpoint [OF assms this] True show ?thesis
    by (simp add: centerOnNode_def Set_add_def)
qed

text \<open>
  Claim C2, at a failing input. With the single node A, hierarchical layout throws on a
  dependency edge from the missing node X to A (at \<^verbatim>\<open>graph[conn.from].push\<close>) and
  on a dependency edge from A to the missing node X (at \<^verbatim>\<open>graph[node.id]\<close> for
  the \<^verbatim>\<open>undefined\<close> that \<^verbatim>\<open>nodes.find\<close> returned); without the edge it
  returns a position for A.
\<close>

theorem hierarchical_missing_endpoint_throws:
  "applyLayout [(''A'', nodeAt ''A'' 0 0)] [edge ''X'' ''A'' dependency] (noOptions hierarchical)
     = Inl TypeError \<and>
   applyLayout [(''A'', nodeAt ''A'' 0 0)] [edge ''A'' ''X'' dependency] (noOptions hierarchical)
     = Inl TypeError \<and>
   applyLayout [(''A'', nodeAt ''A'' 0 0)] [] (noOptions hierarchical)
     = Inr [''A'' \<mapsto> \<lparr>posX = -100, posY = 0\<rparr>]"
  by (simp add: hierarchical_defs example_defs)

end
